theory Spec2Isabelle
  imports Complex_Main "HOL-Library.Word"
begin

unbundle bit_operations_syntax

section \<open>Values of the host language\<close>

text \<open>
  The page script \<open>public/app.js\<close> and the service worker run in a browser. Exceptions
  (a thrown error, a rejected promise) are values of type \<open>error\<close>; a computation that
  may throw returns \<open>error + 'a\<close> with \<open>Inl\<close> for the exception.
\<close>

datatype error = RangeError | TypeError | SyntaxError | NetworkFailure | FetchFailed | CacheFault

type_synonym byte = "8 word"
type_synonym buffer = "byte list"

text \<open>
  A script number is an IEEE double: a finite value, kept as the real number it is, or one
  of the three non-finite values.
\<close>

datatype number = Num real | PosInfinity | NegInfinity | NaN

text \<open>\<open>Math.atan2\<close> in exact arithmetic (signed zeros not distinguished).\<close>

definition atan2 :: "real \<Rightarrow> real \<Rightarrow> real" where
  "atan2 y x =
     (if 0 < x then arctan (y / x)
      else if x < 0 \<and> 0 \<le> y then arctan (y / x) + pi
      else if x < 0 then arctan (y / x) - pi
      else if 0 < y then pi / 2
      else if y < 0 then - (pi / 2)
      else 0)"

text \<open>
  The arithmetic of the engine is not fixed by the source: the sum, difference, product,
  quotient and square root of doubles are the exact results rounded to a double, and
  \<open>Math.sin\<close>, \<open>Math.cos\<close>, \<open>Math.atan2\<close> and \<open>x ** 2\<close> are approximations that differ between
  engines. An \<open>fpu\<close> is any such arithmetic: a rounding function with the sine, the cosine,
  the two-argument arctangent and the square of the engine. What is known of it is what
  IEEE 754 and the language fix: rounding is monotone and leaves the integers up to \<open>2^53\<close>
  as they are (they are doubles), the sine of 0 is 0, \<open>atan2 0 x\<close> is 0 for positive \<open>x\<close>, and
  the square of 0 is 0. Every property below is proved for every \<open>fpu\<close>; exact real
  arithmetic is one of them.
\<close>

typedef fpu = "{(r :: real \<Rightarrow> real, s :: real \<Rightarrow> real, c :: real \<Rightarrow> real,
                t :: real \<Rightarrow> real \<Rightarrow> real, q :: real \<Rightarrow> real).
                mono r \<and> (\<forall>n :: int. \<bar>n\<bar> \<le> 2 ^ 53 \<longrightarrow> r (real_of_int n) = real_of_int n)
                \<and> s 0 = 0 \<and> (\<forall>x. 0 < x \<longrightarrow> t 0 x = 0) \<and> q 0 = 0}"
  by (rule exI [of _ "(\<lambda>x. x, sin, cos, atan2, \<lambda>x. x ^ 2)"]) (simp add: mono_def atan2_def)

definition rnd :: "fpu \<Rightarrow> real \<Rightarrow> real" where
  "rnd F = fst (Rep_fpu F)"

definition fsin :: "fpu \<Rightarrow> real \<Rightarrow> real" where
  "fsin F = fst (snd (Rep_fpu F))"

definition fcos :: "fpu \<Rightarrow> real \<Rightarrow> real" where
  "fcos F = fst (snd (snd (Rep_fpu F)))"

definition fatan2 :: "fpu \<Rightarrow> real \<Rightarrow> real \<Rightarrow> real" where
  "fatan2 F = fst (snd (snd (snd (Rep_fpu F))))"

definition fpow2 :: "fpu \<Rightarrow> real \<Rightarrow> real" where
  "fpow2 F = snd (snd (snd (snd (Rep_fpu F))))"

text \<open>
  The operations on finite doubles whose results stay finite: the exact result, rounded.
  \<open>fsqrt F x\<close> is \<open>Math.sqrt(x)\<close> for \<open>x\<close> not negative, and \<open>fpow2 F x\<close> above is \<open>x ** 2\<close>.
\<close>

definition fadd :: "fpu \<Rightarrow> real \<Rightarrow> real \<Rightarrow> real" where
  "fadd F x y = rnd F (x + y)"

definition fsub :: "fpu \<Rightarrow> real \<Rightarrow> real \<Rightarrow> real" where
  "fsub F x y = rnd F (x - y)"

definition fmul :: "fpu \<Rightarrow> real \<Rightarrow> real \<Rightarrow> real" where
  "fmul F x y = rnd F (x * y)"

definition fdiv :: "fpu \<Rightarrow> real \<Rightarrow> real \<Rightarrow> real" where
  "fdiv F x y = rnd F (x / y)"

definition fsqrt :: "fpu \<Rightarrow> real \<Rightarrow> real" where
  "fsqrt F x = rnd F (sqrt x)"

text \<open>
  Division where the source tests the result with \<open>isFinite\<close>. A quotient overflows to an
  infinity when its magnitude reaches \<open>2^1024 - 2^970\<close>, the point from which
  round-to-nearest leaves the finite doubles.
\<close>

definition DBL_OVERFLOW :: real where
  "DBL_OVERFLOW = 2 ^ 1024 - 2 ^ 970"

definition divide_num :: "fpu \<Rightarrow> real \<Rightarrow> real \<Rightarrow> number" where
  "divide_num F x y =
     (if y = 0 then (if x = 0 then NaN else if 0 < x then PosInfinity else NegInfinity)
      else if DBL_OVERFLOW \<le> x / y then PosInfinity
      else if x / y \<le> - DBL_OVERFLOW then NegInfinity
      else Num (rnd F (x / y)))"

fun isFinite :: "number \<Rightarrow> bool" where
  "isFinite (Num x) = True"
| "isFinite PosInfinity = False"
| "isFinite NegInfinity = False"
| "isFinite NaN = False"

text \<open>\<open>d > y\<close> for a number \<open>d\<close> and a finite \<open>y\<close>: false whenever \<open>d\<close> is NaN.\<close>

fun gt_num :: "number \<Rightarrow> real \<Rightarrow> bool" where
  "gt_num (Num x) y = (y < x)"
| "gt_num PosInfinity y = True"
| "gt_num NegInfinity y = False"
| "gt_num NaN y = False"

text \<open>\<open>x | 0\<close> on an integral number: reduction modulo \<open>2^32\<close> into the signed range.\<close>

definition ToInt32 :: "int \<Rightarrow> int" where
  "ToInt32 n = (n + 2 ^ 31) mod 2 ^ 32 - 2 ^ 31"

section \<open>The decoder: \<open>parseSegments\<close>\<close>

text \<open>
  \<open>view.getInt32(byteOffset, true)\<close>: four bytes, little-endian, read as a signed 32-bit
  integer; a read that does not fit in the view throws \<open>RangeError\<close>.
\<close>

definition word32_le :: "byte \<Rightarrow> byte \<Rightarrow> byte \<Rightarrow> byte \<Rightarrow> 32 word" where
  "word32_le b0 b1 b2 b3 =
     ucast b0 OR push_bit 8 (ucast b1) OR push_bit 16 (ucast b2) OR push_bit 24 (ucast b3)"

definition getInt32 :: "buffer \<Rightarrow> int \<Rightarrow> error + int" where
  "getInt32 view byteOffset =
     (if 0 \<le> byteOffset \<and> byteOffset + 4 \<le> int (length view)
      then (let k = nat byteOffset
            in Inr (sint (word32_le (view ! k) (view ! (k + 1)) (view ! (k + 2)) (view ! (k + 3)))))
      else Inl RangeError)"

definition countPairs :: "buffer \<Rightarrow> int" where
  "countPairs view = ToInt32 (int (length view) div 8)"

definition INT32_MIN :: int where
  "INT32_MIN = - 2147483648"

definition maxGapMeters :: real where
  "maxGapMeters = 2000"

text \<open>
  \<open>haversine\<close>, operation by operation in the arithmetic \<open>F\<close>. \<open>Math.sqrt\<close> of a negative
  number is NaN, and NaN goes through \<open>Math.atan2\<close> and the two products to the result: the
  source does not clamp \<open>a\<close>, which rounding can take above 1.
\<close>

definition haversine :: "fpu \<Rightarrow> real \<Rightarrow> real \<Rightarrow> real \<Rightarrow> real \<Rightarrow> number" where
  "haversine F lat1 lon1 lat2 lon2 =
     (let R = 6371000;
          toRad = fdiv F (rnd F pi) 180;
          dLat = fmul F (fsub F lat2 lat1) toRad;
          dLon = fmul F (fsub F lon2 lon1) toRad;
          a = fadd F (fpow2 F (fsin F (fdiv F dLat 2)))
                (fmul F (fmul F (fcos F (fmul F lat1 toRad)) (fcos F (fmul F lat2 toRad)))
                   (fpow2 F (fsin F (fdiv F dLon 2))))
      in if a < 0 \<or> fsub F 1 a < 0 then NaN
         else Num (fmul F R (fmul F 2 (fatan2 F (fsqrt F a) (fsqrt F (fsub F 1 a))))))"

type_synonym point = "real \<times> real"

record pstate =
  segs :: "point list list"
  current :: "point list"
  prev :: "point option"

text \<open>\<open>if (current.length > 1) segs.push(current)\<close>, written three times in the source.\<close>

definition push_current :: "pstate \<Rightarrow> point list list" where
  "push_current st = (if 1 < length (current st) then segs st @ [current st] else segs st)"

text \<open>One iteration of the \<open>for\<close> loop, after the two fields of record \<open>i\<close> are read.\<close>

definition body :: "fpu \<Rightarrow> int \<Rightarrow> int \<Rightarrow> pstate \<Rightarrow> pstate" where
  "body F lat_e7 lon_e7 st =
     (if lat_e7 = INT32_MIN \<and> lon_e7 = INT32_MIN
      then \<lparr>segs = push_current st, current = [], prev = None\<rparr>
      else
        let lat = divide_num F (real_of_int lat_e7) 10000000;
            lon = divide_num F (real_of_int lon_e7) 10000000
        in if \<not> isFinite lat \<or> \<not> isFinite lon then st
           else (case (lat, lon) of
             (Num la, Num lo) \<Rightarrow>
               let st1 = (case prev st of
                            None \<Rightarrow> st
                          | Some p \<Rightarrow>
                              if gt_num (haversine F (fst p) (snd p) la lo) maxGapMeters
                              then st\<lparr>segs := push_current st, current := []\<rparr>
                              else st)
               in st1\<lparr>current := current st1 @ [(la, lo)], prev := Some (la, lo)\<rparr>
           | _ \<Rightarrow> st))"

function loop :: "fpu \<Rightarrow> buffer \<Rightarrow> int \<Rightarrow> int \<Rightarrow> pstate \<Rightarrow> error + pstate" where
  "loop F view n i st =
     (if i < n
      then (case getInt32 view (i * 8) of
              Inl e \<Rightarrow> Inl e
            | Inr lat_e7 \<Rightarrow>
                (case getInt32 view (i * 8 + 4) of
                   Inl e \<Rightarrow> Inl e
                 | Inr lon_e7 \<Rightarrow> loop F view n (i + 1) (body F lat_e7 lon_e7 st)))
      else Inr st)"
  by pat_completeness auto
termination
  by (relation "measure (\<lambda>(F, view, n, i, st). nat (n - i))") auto

definition init :: pstate where
  "init = \<lparr>segs = [], current = [], prev = None\<rparr>"

definition parseSegments :: "fpu \<Rightarrow> buffer \<Rightarrow> error + point list list" where
  "parseSegments F buf =
     (case loop F buf (countPairs buf) 0 init of
        Inl e \<Rightarrow> Inl e
      | Inr st \<Rightarrow> Inr (push_current st))"

text \<open>
  The upstream converter is not part of the page; \<open>int32_le\<close> writes one field and
  \<open>record_le\<close> one record the way \<open>getInt32\<close> reads them, to build input buffers.
\<close>

definition int32_le :: "int \<Rightarrow> buffer" where
  "int32_le v =
     (let w = (word_of_int v :: 32 word)
      in [ucast w, ucast (drop_bit 8 w), ucast (drop_bit 16 w), ucast (drop_bit 24 w)])"

definition record_le :: "int \<Rightarrow> int \<Rightarrow> buffer" where
  "record_le lat_e7 lon_e7 = int32_le lat_e7 @ int32_le lon_e7"

section \<open>The render controller\<close>

record polyline =
  latlngs :: "point list"
  color :: string
  weight :: real
  opacity :: real

text \<open>The drawing loop of \<open>renderSegments\<close>; the style values are read before the loop.\<close>

fun renderSegments :: "string \<Rightarrow> real \<Rightarrow> real \<Rightarrow> point list list \<Rightarrow> polyline list" where
  "renderSegments c w opa [] = []"
| "renderSegments c w opa (seg # rest) =
     (if length seg < 2 then renderSegments c w opa rest
      else \<lparr>latlngs = seg, color = c, weight = w, opacity = opa\<rparr> # renderSegments c w opa rest)"

section \<open>Cache storage\<close>

text \<open>
  \<open>caches\<close> of one origin: the named caches in creation order, each a map from request URL
  to the body of the stored response. The page and the service worker share it.
  \<open>caches.open\<close> creates a missing cache; \<open>cache.put\<close> through a handle whose cache was
  deleted changes nothing in the storage; \<open>caches.match\<close> searches all the caches in order.
\<close>

type_synonym url = string
type_synonym cache = "url \<rightharpoonup> buffer"
type_synonym cache_storage = "(string \<times> cache) list"

text \<open>
  What the browser does during one call: whether \<open>'caches' in window\<close> holds, and whether
  \<open>caches.open\<close>, \<open>cache.match\<close> and \<open>cache.put\<close> reject.
\<close>

record env =
  has_caches :: bool
  open_fails :: bool
  match_fails :: bool
  put_fails :: bool

definition caches_keys :: "cache_storage \<Rightarrow> string list" where
  "caches_keys s = map fst s"

definition caches_open :: "env \<Rightarrow> string \<Rightarrow> cache_storage \<Rightarrow> error + cache_storage" where
  "caches_open e name s =
     (if open_fails e then Inl CacheFault
      else Inr (if name \<in> set (caches_keys s) then s else s @ [(name, Map.empty)]))"

definition cache_match :: "env \<Rightarrow> string \<Rightarrow> url \<Rightarrow> cache_storage \<Rightarrow> error + buffer option" where
  "cache_match e name u s =
     (if match_fails e then Inl CacheFault
      else Inr (case map_of s name of None \<Rightarrow> None | Some c \<Rightarrow> c u))"

definition cache_put :: "env \<Rightarrow> string \<Rightarrow> url \<Rightarrow> buffer \<Rightarrow> cache_storage \<Rightarrow> error + cache_storage" where
  "cache_put e name u b s =
     (if put_fails e then Inl CacheFault
      else Inr (map (\<lambda>(k, c). if k = name then (k, c(u \<mapsto> b)) else (k, c)) s))"

definition caches_delete :: "string \<Rightarrow> cache_storage \<Rightarrow> cache_storage" where
  "caches_delete name s = filter (\<lambda>(k, c). k \<noteq> name) s"

fun caches_match :: "url \<Rightarrow> cache_storage \<Rightarrow> buffer option" where
  "caches_match u [] = None"
| "caches_match u ((k, c) # rest) = (case c u of Some b \<Rightarrow> Some b | None \<Rightarrow> caches_match u rest)"

section \<open>The stream loader: \<open>loadBinary\<close>\<close>

definition CACHE_NAME :: string where
  "CACHE_NAME = ''htmap-v3-lines''"

text \<open>
  The loading overlay: whether it is hidden, the arguments \<open>updateLoading\<close> was called with
  (oldest first), and the clamped values it wrote to \<open>loadingPct\<close>. Every caller passes an
  integer, on which \<open>Math.floor\<close> is the identity.
\<close>

record ui =
  hidden :: bool
  calls :: "int list"
  shown :: "int list"

text \<open>
  Text shown in the \<open>totalKm\<close> element: \<open>Fixed2 x\<close> stands for the string \<open>x.toFixed(2)\<close>.
\<close>

datatype content = Fixed2 real | Literal string

text \<open>
  The state the loaders change: the overlay, the cache storage, the background refreshes
  started and not awaited (\<open>refreshCache(url, cache).catch(...)\<close>), and the text of the
  \<open>totalKm\<close> element (\<open>None\<close> when the page has no such element).
\<close>

record world =
  loading :: ui
  storage :: cache_storage
  spawned :: "url list"
  totalKm :: "content option"

definition updateLoading :: "int \<Rightarrow> ui \<Rightarrow> ui" where
  "updateLoading pct u =
     (let clamped = max 0 (min 100 pct)
      in u\<lparr>calls := calls u @ [pct], shown := shown u @ [clamped]\<rparr>)"

definition showLoading :: "ui \<Rightarrow> ui" where
  "showLoading u = updateLoading 0 (u\<lparr>hidden := False\<rparr>)"

definition hideLoading :: "ui \<Rightarrow> ui" where
  "hideLoading u = u\<lparr>hidden := True\<rparr>"

text \<open>
  What \<open>fetch\<close> resolves to (\<open>Inl\<close> in its place when it rejects): \<open>res.ok\<close>; the number
  \<open>Number(res.headers.get('Content-Length')) || 0\<close>; whether \<open>res.body\<close> and
  \<open>window.ReadableStream\<close> exist; the results of the successive \<open>reader.read()\<close> calls before
  the one that reports \<open>done\<close> (a chunk, or a rejection); and the result of
  \<open>res.arrayBuffer()\<close>. A stream that never ends is not represented.
\<close>

record response =
  ok :: bool
  content_length :: int
  streamable :: bool
  reads :: "(error + buffer) list"
  whole :: "error + buffer"

record sstate =
  received :: int
  lastShown :: int
  offset :: int
  target :: buffer
  chunks :: "buffer list"
  bar :: ui

text \<open>
  \<open>Math.floor((received / total) * 100)\<close> in the arithmetic \<open>F\<close>, and \<open>target.set(value, offset)\<close>,
  which throws \<open>RangeError\<close> when the chunk does not fit. The local \<open>total\<close> of the source is
  \<open>tot\<close> here. On the path that uses it, \<open>received\<close> is at most the length of a typed array,
  so it and \<open>total\<close> are doubles as they are.
\<close>

definition percent :: "fpu \<Rightarrow> int \<Rightarrow> int \<Rightarrow> int" where
  "percent F rcv tot = \<lfloor>fmul F (fdiv F (real_of_int rcv) (real_of_int tot)) 100\<rfloor>"

definition target_set :: "buffer \<Rightarrow> int \<Rightarrow> sstate \<Rightarrow> error + sstate" where
  "target_set val off s =
     (if int (length (target s)) < off + int (length val) then Inl RangeError
      else Inr (s\<lparr>target := take (nat off) (target s) @ val @ drop (nat off + length val) (target s)\<rparr>))"

fun read_loop :: "fpu \<Rightarrow> int \<Rightarrow> (error + buffer) list \<Rightarrow> sstate \<Rightarrow> error option \<times> sstate" where
  "read_loop F tot [] s = (None, s)"
| "read_loop F tot (Inl e # rest) s = (Some e, s)"
| "read_loop F tot (Inr val # rest) s =
     (case (if 0 < tot
            then (case target_set val (offset s) s of
                    Inl e \<Rightarrow> Inl e
                  | Inr s' \<Rightarrow> Inr (s'\<lparr>offset := offset s' + int (length val)\<rparr>))
            else Inr (s\<lparr>chunks := chunks s @ [val]\<rparr>)) of
        Inl e \<Rightarrow> (Some e, s)
      | Inr s1 \<Rightarrow>
          let s2 = s1\<lparr>received := received s1 + int (length val)\<rparr>;
              s3 = (if 0 < tot
                    then (let p = percent F (received s2) tot
                          in if p \<noteq> lastShown s2
                             then s2\<lparr>bar := updateLoading p (bar s2), lastShown := p\<rparr>
                             else s2)
                    else s2)
          in read_loop F tot rest s3)"

text \<open>\<open>if (cache) { try { await cache.put(url, ...) } catch {} }\<close>\<close>

definition put_best_effort :: "env \<Rightarrow> string option \<Rightarrow> url \<Rightarrow> buffer \<Rightarrow> cache_storage \<Rightarrow> cache_storage" where
  "put_best_effort e cache u b s =
     (case cache of
        None \<Rightarrow> s
      | Some name \<Rightarrow> (case cache_put e name u b s of Inl err \<Rightarrow> s | Inr s' \<Rightarrow> s'))"

text \<open>The first \<open>try\<close> block of \<open>loadBinary\<close>: the values of \<open>cache\<close> and \<open>cachedRes\<close> after it.\<close>

definition open_and_match ::
  "env \<Rightarrow> url \<Rightarrow> cache_storage \<Rightarrow> string option \<times> buffer option \<times> cache_storage" where
  "open_and_match e u s =
     (if has_caches e
      then (case caches_open e CACHE_NAME s of
              Inl err \<Rightarrow> (None, None, s)
            | Inr s' \<Rightarrow>
                (case cache_match e CACHE_NAME u s' of
                   Inl err \<Rightarrow> (Some CACHE_NAME, None, s')
                 | Inr r \<Rightarrow> (Some CACHE_NAME, r, s')))
      else (None, None, s))"

definition loadBinary ::
  "fpu \<Rightarrow> env \<Rightarrow> error + response \<Rightarrow> url \<Rightarrow> world \<Rightarrow> world \<times> (error + point list list)" where
  "loadBinary F e net u w =
     (let w0 = w\<lparr>loading := showLoading (loading w)\<rparr>;
          (cache, cachedRes, s1) = open_and_match e u (storage w0);
          w1 = w0\<lparr>storage := s1\<rparr>
      in case cachedRes of
           Some buf \<Rightarrow>
             (w1\<lparr>loading := hideLoading (updateLoading 100 (loading w1)),
                  spawned := spawned w1 @ [u]\<rparr>,
              parseSegments F buf)
         | None \<Rightarrow>
             (case net of
                Inl err \<Rightarrow> (w1, Inl err)
              | Inr res \<Rightarrow>
                  if \<not> ok res then (w1, Inl FetchFailed)
                  else if \<not> streamable res
                  then (case whole res of
                          Inl err \<Rightarrow> (w1, Inl err)
                        | Inr buf \<Rightarrow>
                            (w1\<lparr>storage := put_best_effort e cache u buf (storage w1),
                                 loading := hideLoading (updateLoading 100 (loading w1))\<rparr>,
                             parseSegments F buf))
                  else
                    let tot = content_length res;
                        s0 = \<lparr>received = 0, lastShown = - 1, offset = 0,
                              target = (if 0 < tot then replicate (nat tot) 0 else []),
                              chunks = [], bar = loading w1\<rparr>
                    in (case read_loop F tot (reads res) s0 of
                          (Some err, s) \<Rightarrow> (w1\<lparr>loading := bar s\<rparr>, Inl err)
                        | (None, s) \<Rightarrow>
                            let buf = (if 0 < tot then target s else concat (chunks s))
                            in (w1\<lparr>loading := hideLoading (updateLoading 100 (bar s)),
                                    storage := put_best_effort e cache u buf (storage w1)\<rparr>,
                                parseSegments F buf))))"

definition refreshCache :: "env \<Rightarrow> error + response \<Rightarrow> url \<Rightarrow> string option \<Rightarrow> cache_storage \<Rightarrow> cache_storage" where
  "refreshCache e net u cache s =
     (case cache of
        None \<Rightarrow> s
      | Some name \<Rightarrow>
          (case net of
             Inl err \<Rightarrow> s
           | Inr res \<Rightarrow>
               if ok res
               then (case whole res of
                       Inl err \<Rightarrow> s
                     | Inr buf \<Rightarrow> (case cache_put e name u buf s of Inl err \<Rightarrow> s | Inr s' \<Rightarrow> s'))
               else s))"

section \<open>The summary loader: \<open>loadSummary\<close>\<close>

text \<open>
  A parsed JSON value. \<open>res.json()\<close> and \<open>JSON.stringify\<close> are the parameters \<open>parse\<close> and
  \<open>stringify\<close> of the loader, from and to the bytes of a body.
\<close>

datatype json = JNull | JBool bool | JNum real | JStr string | JArr "json list"
  | JObj "(string \<times> json) list"

text \<open>\<open>data.total_km\<close>: reading a property of \<open>null\<close> throws; a later duplicate key wins.\<close>

fun get_total_km :: "json \<Rightarrow> error + json option" where
  "get_total_km JNull = Inl TypeError"
| "get_total_km (JObj kvs) = Inr (map_of (rev kvs) ''total_km'')"
| "get_total_km v = Inr None"

text \<open>\<open>v ?? 0\<close>, and \<open>.toFixed(2)\<close>, which only numbers have.\<close>

fun nullish_zero :: "json option \<Rightarrow> json" where
  "nullish_zero None = JNum 0"
| "nullish_zero (Some JNull) = JNum 0"
| "nullish_zero (Some v) = v"

fun toFixed2 :: "json \<Rightarrow> error + content" where
  "toFixed2 (JNum x) = Inr (Fixed2 x)"
| "toFixed2 v = Inl TypeError"

definition summary_text :: "json \<Rightarrow> error + content" where
  "summary_text data =
     (case get_total_km data of
        Inl err \<Rightarrow> Inl err
      | Inr f \<Rightarrow> toFixed2 (nullish_zero f))"

text \<open>\<open>function setVal(v) { if (totalEl) totalEl.textContent = v; }\<close>\<close>

definition setVal :: "content \<Rightarrow> world \<Rightarrow> world" where
  "setVal v w = (case totalKm w of None \<Rightarrow> w | Some old \<Rightarrow> w\<lparr>totalKm := Some v\<rparr>)"

definition response_json :: "(buffer \<Rightarrow> error + json) \<Rightarrow> response \<Rightarrow> error + json" where
  "response_json parse res = (case whole res of Inl err \<Rightarrow> Inl err | Inr b \<Rightarrow> parse b)"

text \<open>
  The two \<open>try\<close> blocks of \<open>loadSummary\<close>. Each returns \<open>Inr (Some w)\<close> when it ends in
  \<open>return\<close>, \<open>Inr None\<close> when it falls through, and \<open>Inl\<close> when it throws.
\<close>

definition summary_network ::
  "env \<Rightarrow> error + response \<Rightarrow> (buffer \<Rightarrow> error + json) \<Rightarrow> (json \<Rightarrow> buffer) \<Rightarrow>
   url \<Rightarrow> string option \<Rightarrow> world \<Rightarrow> error + world option" where
  "summary_network e net parse stringify u cache w =
     (case net of
        Inl err \<Rightarrow> Inl err
      | Inr res \<Rightarrow>
          if ok res
          then (case response_json parse res of
                  Inl err \<Rightarrow> Inl err
                | Inr data \<Rightarrow>
                    (case summary_text data of
                       Inl err \<Rightarrow> Inl err
                     | Inr t \<Rightarrow>
                         let w' = setVal t w
                         in Inr (Some (w'\<lparr>storage :=
                              put_best_effort e cache u (stringify data) (storage w')\<rparr>))))
          else Inr None)"

definition summary_cached ::
  "env \<Rightarrow> (buffer \<Rightarrow> error + json) \<Rightarrow> url \<Rightarrow> string \<Rightarrow> world \<Rightarrow> error + world option" where
  "summary_cached e parse u name w =
     (case cache_match e name u (storage w) of
        Inl err \<Rightarrow> Inl err
      | Inr None \<Rightarrow> Inr None
      | Inr (Some b) \<Rightarrow>
          (case parse b of
             Inl err \<Rightarrow> Inl err
           | Inr data \<Rightarrow>
               (case summary_text data of
                  Inl err \<Rightarrow> Inl err
                | Inr t \<Rightarrow> Inr (Some (setVal t w)))))"

definition open_cache :: "env \<Rightarrow> cache_storage \<Rightarrow> string option \<times> cache_storage" where
  "open_cache e s =
     (if has_caches e
      then (case caches_open e CACHE_NAME s of
              Inl err \<Rightarrow> (None, s)
            | Inr s' \<Rightarrow> (Some CACHE_NAME, s'))
      else (None, s))"

definition loadSummary ::
  "env \<Rightarrow> error + response \<Rightarrow> (buffer \<Rightarrow> error + json) \<Rightarrow> (json \<Rightarrow> buffer) \<Rightarrow>
   url \<Rightarrow> world \<Rightarrow> error + world" where
  "loadSummary e net parse stringify u w =
     (let (cache, s1) = open_cache e (storage w);
          w1 = w\<lparr>storage := s1\<rparr>
      in case summary_network e net parse stringify u cache w1 of
           Inr (Some w') \<Rightarrow> Inr w'
         | _ \<Rightarrow>
             (case (case cache of
                      None \<Rightarrow> Inr None
                    | Some name \<Rightarrow> summary_cached e parse u name w1) of
                Inr (Some w') \<Rightarrow> Inr w'
              | _ \<Rightarrow> Inr (setVal (Literal ''--'') w1)))"

section \<open>The fetch interceptor (service worker)\<close>

text \<open>
  The handlers of the service worker, as functions on the cache storage. A request is its
  URL; the network gives each request a body or fails. The \<open>cache.put\<close> of the fetch handler
  is not awaited by the handler; its effect is applied at once, and its failure is ignored.
\<close>

definition SW_CACHE_NAME :: string where
  "SW_CACHE_NAME = ''htmap-v2''"

definition ASSETS :: "url list" where
  "ASSETS = [''./'', ''./index.html'', ''./styles.css'', ''./app.js'', ''./summary.json'']"

text \<open>\<open>cache.addAll\<close> stores all the responses or, when one request fails, none.\<close>

fun fetch_all :: "(url \<Rightarrow> error + buffer) \<Rightarrow> url list \<Rightarrow> error + (url \<times> buffer) list" where
  "fetch_all net [] = Inr []"
| "fetch_all net (u # us) =
     (case net u of
        Inl err \<Rightarrow> Inl err
      | Inr b \<Rightarrow> (case fetch_all net us of Inl err \<Rightarrow> Inl err | Inr rs \<Rightarrow> Inr ((u, b) # rs)))"

definition cache_addAll ::
  "(url \<Rightarrow> error + buffer) \<Rightarrow> string \<Rightarrow> url list \<Rightarrow> cache_storage \<Rightarrow> error + cache_storage" where
  "cache_addAll net name us s =
     (case fetch_all net us of
        Inl err \<Rightarrow> Inl err
      | Inr rs \<Rightarrow>
          Inr (map (\<lambda>(k, c). if k = name then (k, c ++ map_of (rev rs)) else (k, c)) s))"

definition sw_install :: "env \<Rightarrow> (url \<Rightarrow> error + buffer) \<Rightarrow> cache_storage \<Rightarrow> cache_storage \<times> error option" where
  "sw_install e net s =
     (case caches_open e SW_CACHE_NAME s of
        Inl err \<Rightarrow> (s, Some err)
      | Inr s' \<Rightarrow>
          (case cache_addAll net SW_CACHE_NAME ASSETS s' of
             Inl err \<Rightarrow> (s', Some err)
           | Inr s'' \<Rightarrow> (s'', None)))"

text \<open>\<open>keys.filter(k => k !== CACHE_NAME).map(k => caches.delete(k))\<close>\<close>

definition sw_activate :: "cache_storage \<Rightarrow> cache_storage" where
  "sw_activate s =
     foldl (\<lambda>acc k. caches_delete k acc) s (filter (\<lambda>k. k \<noteq> SW_CACHE_NAME) (caches_keys s))"

definition endsWith :: "string \<Rightarrow> string \<Rightarrow> bool" where
  "endsWith str suf = (length suf \<le> length str \<and> drop (length str - length suf) str = suf)"

datatype reply = Passthrough | Respond "error + buffer"

definition sw_store :: "env \<Rightarrow> url \<Rightarrow> buffer \<Rightarrow> cache_storage \<Rightarrow> cache_storage" where
  "sw_store e req b s =
     (case caches_open e SW_CACHE_NAME s of
        Inl err \<Rightarrow> s
      | Inr s' \<Rightarrow> (case cache_put e SW_CACHE_NAME req b s' of Inl err \<Rightarrow> s' | Inr s'' \<Rightarrow> s''))"

definition network_first :: "env \<Rightarrow> url \<Rightarrow> error + buffer \<Rightarrow> cache_storage \<Rightarrow> cache_storage \<times> reply" where
  "network_first e req net s =
     (case net of
        Inr b \<Rightarrow> (sw_store e req b s, Respond (Inr b))
      | Inl err \<Rightarrow>
          (s, Respond (case caches_match req s of Some b \<Rightarrow> Inr b | None \<Rightarrow> Inl NetworkFailure)))"

definition sw_fetch ::
  "env \<Rightarrow> bool \<Rightarrow> string \<Rightarrow> url \<Rightarrow> error + buffer \<Rightarrow> cache_storage \<Rightarrow> cache_storage \<times> reply" where
  "sw_fetch e same_origin pathname req net s =
     (if same_origin
      then (if endsWith pathname ''/points.bin'' then network_first e req net s
            else if endsWith pathname ''/summary.json'' then network_first e req net s
            else (s, Respond (case caches_match req s of Some b \<Rightarrow> Inr b | None \<Rightarrow> net)))
      else (s, Passthrough))"

text \<open>The entries of the application's cache, as \<open>cache.match\<close> on it sees them.\<close>

definition app_entries :: "cache_storage \<Rightarrow> cache" where
  "app_entries s = (case map_of s CACHE_NAME of None \<Rightarrow> Map.empty | Some c \<Rightarrow> c)"

section \<open>Example inputs\<close>

text \<open>
  Two arithmetics: exact real arithmetic, and exact arithmetic with a cosine that is too
  large by \<open>2^-53\<close>, half the distance between 1 and the next double.
\<close>

definition exact :: fpu where
  "exact = Abs_fpu (\<lambda>x. x, sin, cos, atan2, \<lambda>x. x ^ 2)"

definition cos_high :: fpu where
  "cos_high = Abs_fpu (\<lambda>x. x, sin, \<lambda>x. cos x + 1 / 2 ^ 53, atan2, \<lambda>x. x ^ 2)"



definition buf2 :: buffer where
  "buf2 = record_le 0 0 @ record_le 0 0 @ record_le 0 1800000000"

definition buf3 :: buffer where
  "buf3 = record_le (- 2147483648) 0 @ record_le (- 2147483648) 0"

definition env0 :: env where
  "env0 = \<lparr>has_caches = False, open_fails = False, match_fails = False, put_fails = False\<rparr>"

definition world0 :: world where
  "world0 = \<lparr>loading = \<lparr>hidden = True, calls = [], shown = []\<rparr>, storage = [], spawned = [],
             totalKm = Some (Literal [])\<rparr>"

definition res_two_chunks :: response where
  "res_two_chunks = \<lparr>ok = True, content_length = 16, streamable = True,
      reads = [Inr (record_le 0 0), Inr (record_le 0 0)],
      whole = Inr (record_le 0 0 @ record_le 0 0)\<rparr>"

definition res_one_chunk :: response where
  "res_one_chunk = \<lparr>ok = True, content_length = 8, streamable = True,
      reads = [Inr (record_le 0 0)], whole = Inr (record_le 0 0)\<rparr>"


definition env1 :: env where
  "env1 = \<lparr>has_caches = True, open_fails = False, match_fails = False, put_fails = False\<rparr>"

text \<open>
  A stand-in for the JSON codec of the browser, for the example loads: a body of \<open>n\<close> bytes
  reads as the object with \<open>total_km = n\<close>, and an empty body does not parse.
\<close>

definition km_parse :: "buffer \<Rightarrow> error + json" where
  "km_parse b = (if b = [] then Inl SyntaxError
                 else Inr (JObj [(''total_km'', JNum (real (length b)))]))"

definition km_stringify :: "json \<Rightarrow> buffer" where
  "km_stringify d = (case d of JObj [(k, JNum x)] \<Rightarrow> replicate (nat \<lfloor>x\<rfloor>) 0 | _ \<Rightarrow> [])"

definition res_summary :: response where
  "res_summary = \<lparr>ok = True, content_length = 3, streamable = True, reads = [Inr [0, 0, 0]],
                   whole = Inr [0, 0, 0]\<rparr>"

definition world1 :: world where
  "world1 = world0\<lparr>storage := [(CACHE_NAME, [''summary.json'' \<mapsto> [0, 0]])]\<rparr>"

definition world2 :: world where
  "world2 = fst (loadBinary exact env1 (Inr res_one_chunk) ''points.bin'' world0)"

section \<open>Percentages after each chunk\<close>



section \<open>Invariants used in the proofs\<close>

definition long_segs :: "pstate \<Rightarrow> bool" where
  "long_segs st = (\<forall>s \<in> set (segs st). 2 \<le> length s)"

section \<open>Properties of the arithmetic\<close>

lemma fpu_facts:
  "mono (rnd F)"
  "\<bar>n\<bar> \<le> 2 ^ 53 \<Longrightarrow> rnd F (real_of_int n) = real_of_int n"
  "fsin F 0 = 0"
  "0 < x \<Longrightarrow> fatan2 F 0 x = 0"
  "fpow2 F 0 = 0"
  using Rep_fpu [of F]
  by (auto simp: rnd_def fsin_def fatan2_def fpow2_def split: prod.splits)

lemma rnd_mono: "x \<le> y \<Longrightarrow> rnd F x \<le> rnd F y"
  using fpu_facts(1) [of F] by (simp add: mono_def)

lemma rnd_0 [simp]: "rnd F 0 = 0"
  using fpu_facts(2) [of 0 F] by simp

lemma rnd_1 [simp]: "rnd F 1 = 1"
  using fpu_facts(2) [of 1 F] by simp

lemma rnd_numeral [simp]:
  "numeral k \<le> (2 ^ 53 :: int) \<Longrightarrow> rnd F (numeral k) = numeral k"
  "numeral k \<le> (2 ^ 53 :: int) \<Longrightarrow> rnd F (- numeral k) = - numeral k"
  using fpu_facts(2) [of "numeral k" F] fpu_facts(2) [of "- numeral k" F] by simp_all

lemma Rep_exact: "Rep_fpu exact = (\<lambda>x. x, sin, cos, atan2, \<lambda>x. x ^ 2)"
  unfolding exact_def by (rule Abs_fpu_inverse) (simp add: mono_def atan2_def)

lemma exact_simps [simp]:
  "rnd exact x = x" "fsin exact = sin" "fcos exact = cos" "fatan2 exact = atan2"
  "fpow2 exact x = x ^ 2"
  by (simp_all add: rnd_def fsin_def fcos_def fatan2_def fpow2_def Rep_exact)

lemma Rep_cos_high:
  "Rep_fpu cos_high = (\<lambda>x. x, sin, \<lambda>x. cos x + 1 / 2 ^ 53, atan2, \<lambda>x. x ^ 2)"
  unfolding cos_high_def by (rule Abs_fpu_inverse) (simp add: mono_def atan2_def)

lemma cos_high_simps [simp]:
  "rnd cos_high x = x" "fsin cos_high = sin" "fcos cos_high = (\<lambda>x. cos x + 1 / 2 ^ 53)"
  "fatan2 cos_high = atan2" "fpow2 cos_high x = x ^ 2"
  by (simp_all add: rnd_def fsin_def fcos_def fatan2_def fpow2_def Rep_cos_high)

section \<open>Properties of the decoder\<close>

lemmas loop_unfold = loop.simps

declare loop.simps [simp del]

lemma isFinite_divide_int32:
  assumes "- 2147483648 \<le> v" "v \<le> 2147483647"
  shows "divide_num F (real_of_int v) 10000000 = Num (rnd F (real_of_int v / 10000000))"
proof -
  have lo: "- 2147483648 \<le> real_of_int v" using assms(1) by linarith
  have hi: "real_of_int v \<le> 2147483647" using assms(2) by linarith
  have big: "(2147483648 :: real) < DBL_OVERFLOW * 10000000"
    by (simp add: DBL_OVERFLOW_def)
  have "real_of_int v < DBL_OVERFLOW * 10000000" using hi big by linarith
  moreover have "- (DBL_OVERFLOW * 10000000) < real_of_int v" using lo big by linarith
  ultimately show ?thesis
    by (simp add: divide_num_def pos_le_divide_eq pos_divide_le_eq not_le)
qed

lemma getInt32_range:
  assumes "getInt32 view off = Inr v"
  shows "- 2147483648 \<le> v \<and> v \<le> 2147483647"
proof -
  obtain w :: "32 word" where "v = sint w"
    using assms by (auto simp: getInt32_def Let_def split: if_splits)
  moreover have "- (2 ^ 31) \<le> sint w" "sint w < 2 ^ 31"
    using sint_range_size [of w] by (simp_all add: word_size)
  ultimately show ?thesis by simp
qed

lemma ToInt32_le: "0 \<le> m \<Longrightarrow> ToInt32 m \<le> m"
proof -
  assume "0 \<le> m"
  have "(m + 2 ^ 31) mod 2 ^ 32 \<le> m + 2 ^ 31"
    by (rule zmod_le_nonneg_dividend) (use \<open>0 \<le> m\<close> in simp)
  then show ?thesis by (simp add: ToInt32_def)
qed

lemma countPairs_fits: "countPairs buf * 8 \<le> int (length buf)"
proof -
  have "countPairs buf \<le> int (length buf) div 8"
    unfolding countPairs_def by (rule ToInt32_le) simp
  then show ?thesis by linarith
qed

lemma getInt32_ok:
  "0 \<le> off \<Longrightarrow> off + 4 \<le> int (length view) \<Longrightarrow> \<exists>v. getInt32 view off = Inr v"
  by (simp add: getInt32_def Let_def)

lemma loop_total:
  "0 \<le> i \<Longrightarrow> n * 8 \<le> int (length view) \<Longrightarrow> \<exists>st'. loop F view n i st = Inr st'"
proof (induction F view n i st rule: loop.induct)
  case (1 F view n i st)
  show ?case
  proof (cases "i < n")
    case False
    then show ?thesis by (simp add: loop_unfold [of F view n i st])
  next
    case True
    obtain a where a: "getInt32 view (i * 8) = Inr a"
      using getInt32_ok [of "i * 8" view] True 1 by auto
    obtain b where b: "getInt32 view (i * 8 + 4) = Inr b"
      using getInt32_ok [of "i * 8 + 4" view] True 1 by auto
    have "\<exists>st'. loop F view n (i + 1) (body F a b st) = Inr st'"
      using 1 True a b by auto
    then show ?thesis using True a b by (simp add: loop_unfold [of F view n i st])
  qed
qed

lemma loop_split:
  "i \<le> k \<Longrightarrow> k \<le> n \<Longrightarrow>
   loop F view n i st = (case loop F view k i st of Inl e \<Rightarrow> Inl e | Inr st' \<Rightarrow> loop F view n k st')"
proof (induction F view k i st rule: loop.induct)
  case (1 F view k i st)
  show ?case
  proof (cases "i < k")
    case False
    then have "i = k" using 1 by simp
    then show ?thesis by (simp add: loop_unfold [of F view k k st])
  next
    case True
    then have "i < n" using 1 by simp
    show ?thesis
      using True \<open>i < n\<close> 1
      by (simp add: loop_unfold [of F view n i st] loop_unfold [of F view k i st] split: sum.splits)
  qed
qed

lemma loop_step:
  "getInt32 view (k * 8) = Inr a \<Longrightarrow> getInt32 view (k * 8 + 4) = Inr b \<Longrightarrow>
   loop F view (k + 1) k st = Inr (body F a b st)"
  by (simp add: loop_unfold [of F view "k + 1" k st] loop_unfold [of F view "k + 1" "k + 1"])

lemma haversine_same: "haversine F la lo la lo = Num 0"
  by (simp add: haversine_def fadd_def fsub_def fmul_def fdiv_def fsqrt_def
        fpu_facts(3) fpu_facts(4) fpu_facts(5) Let_def)

lemma haversine_half_turn: "haversine exact 0 0 0 180 = Num (6371000 * pi)"
  by (simp add: haversine_def fadd_def fsub_def fmul_def fdiv_def fsqrt_def atan2_def)

lemma half_turn_is_gap: "gt_num (haversine exact 0 0 0 180) maxGapMeters"
proof -
  have "(2::real) \<le> pi" by (rule pi_ge_two)
  then have "(2000::real) < 6371000 * pi" by simp
  then show ?thesis by (simp add: haversine_half_turn maxGapMeters_def)
qed


lemma word32_le_bytes:
  fixes w :: "32 word"
  shows "word32_le (ucast w) (ucast (drop_bit 8 w)) (ucast (drop_bit 16 w)) (ucast (drop_bit 24 w)) = w"
proof (rule bit_eqI)
  fix n
  assume "possible_bit TYPE(32 word) n"
  then have n: "n < 32" by (simp add: possible_bit_word)
  consider "n < 8" | "8 \<le> n" "n < 16" | "16 \<le> n" "n < 24" | "24 \<le> n"
    by linarith
  then show "bit (word32_le (ucast w) (ucast (drop_bit 8 w)) (ucast (drop_bit 16 w))
                   (ucast (drop_bit 24 w))) n = bit w n"
    using n unfolding word32_le_def
    by cases (auto simp: bit_simps)
qed

lemma getInt32_int32_le:
  assumes "- 2147483648 \<le> v" "v \<le> 2147483647"
  shows "getInt32 (pre @ int32_le v @ post) (int (length pre)) = Inr v"
proof -
  have "sint (word_of_int v :: 32 word) = v"
    using assms by (simp add: sint_sbintrunc' signed_take_bit_int_eq_self)
  then show ?thesis
    by (simp add: getInt32_def int32_le_def Let_def nth_append word32_le_bytes)
qed


lemma body_point:
  assumes "- 2147483648 \<le> a" "a \<le> 2147483647" "- 2147483648 \<le> b" "b \<le> 2147483647"
    and "\<not> (a = INT32_MIN \<and> b = INT32_MIN)"
  shows "body F a b st =
     (let pt = (rnd F (real_of_int a / 10000000), rnd F (real_of_int b / 10000000))
      in case prev st of
           None \<Rightarrow> st\<lparr>current := current st @ [pt], prev := Some pt\<rparr>
         | Some p \<Rightarrow>
             if gt_num (haversine F (fst p) (snd p) (fst pt) (snd pt)) maxGapMeters
             then st\<lparr>segs := push_current st, current := [pt], prev := Some pt\<rparr>
             else st\<lparr>current := current st @ [pt], prev := Some pt\<rparr>)"
proof -
  have ns: "(a = INT32_MIN \<and> b = INT32_MIN) = False" using assms(5) by simp
  show ?thesis
    unfolding body_def ns
    by (simp add: isFinite_divide_int32 [OF assms(1,2)] isFinite_divide_int32 [OF assms(3,4)]
        Let_def split: option.splits)
qed


lemma loop_advance:
  assumes "0 \<le> k" "k < n"
    and "loop F buf k 0 st0 = Inr st"
    and "getInt32 buf (k * 8) = Inr a" "getInt32 buf (k * 8 + 4) = Inr b"
  shows "loop F buf (k + 1) 0 st0 = Inr (body F a b st)"
    and "loop F buf n 0 st0 = loop F buf n (k + 1) (body F a b st)"
proof -
  have "loop F buf (k + 1) 0 st0 = loop F buf (k + 1) k st"
    using loop_split [of 0 k "k + 1" F buf st0] assms(1,3) by simp
  then show "loop F buf (k + 1) 0 st0 = Inr (body F a b st)"
    using loop_step [OF assms(4,5)] by simp
  then show "loop F buf n 0 st0 = loop F buf n (k + 1) (body F a b st)"
    using loop_split [of 0 "k + 1" n F buf st0] assms(1,2) by simp
qed

subsection \<open>Sentinel records\<close>




subsection \<open>Distance splits\<close>

text \<open>
  What the decoder does with the distance it computes: whenever record \<open>k\<close> of any buffer is
  not the sentinel, a previous point \<open>p\<close> exists in the state \<open>st\<close> reached after the first \<open>k\<close>
  records, and the number \<open>haversine\<close> returns for \<open>p\<close> and the decoded point is greater than
  2000, the decoder appends the open segment to the track set only if it has at least two
  points, and the new open segment holds the decoded point alone, which also becomes the
  previous point. A distance that comes out as NaN is not greater than 2000.
\<close>

lemma computed_gap_starts_new_segment:
  assumes "0 \<le> k" "k < countPairs buf"
    and "getInt32 buf (k * 8) = Inr lat_e7"
    and "getInt32 buf (k * 8 + 4) = Inr lon_e7"
    and "\<not> (lat_e7 = INT32_MIN \<and> lon_e7 = INT32_MIN)"
    and "loop F buf k 0 init = Inr st"
    and "prev st = Some p"
    and "gt_num (haversine F (fst p) (snd p) (rnd F (real_of_int lat_e7 / 10000000))
           (rnd F (real_of_int lon_e7 / 10000000))) maxGapMeters"
  shows "\<exists>st' pt. pt = (rnd F (real_of_int lat_e7 / 10000000), rnd F (real_of_int lon_e7 / 10000000))
           \<and> st' = \<lparr>segs = (if 2 \<le> length (current st) then segs st @ [current st] else segs st),
                     current = [pt], prev = Some pt\<rparr>
           \<and> loop F buf (k + 1) 0 init = Inr st'
           \<and> parseSegments F buf =
               (case loop F buf (countPairs buf) (k + 1) st' of
                  Inl e \<Rightarrow> Inl e
                | Inr fin \<Rightarrow> Inr (push_current fin))"
proof -
  define pt where "pt = (rnd F (real_of_int lat_e7 / 10000000), rnd F (real_of_int lon_e7 / 10000000))"
  define st' where "st' = \<lparr>segs = (if 2 \<le> length (current st) then segs st @ [current st] else segs st),
                     current = [pt], prev = Some pt\<rparr>"
  have ra: "- 2147483648 \<le> lat_e7" "lat_e7 \<le> 2147483647"
    using getInt32_range [OF assms(3)] by simp_all
  have rb: "- 2147483648 \<le> lon_e7" "lon_e7 \<le> 2147483647"
    using getInt32_range [OF assms(4)] by simp_all
  have b: "body F lat_e7 lon_e7 st = st'"
    using assms(7,8)
    by (auto simp: body_point [OF ra rb assms(5)] st'_def pt_def push_current_def Let_def)
  have 1: "loop F buf (k + 1) 0 init = Inr st'"
    using loop_advance(1) [OF assms(1,2,6,3,4)] b by simp
  have 2: "loop F buf (countPairs buf) 0 init = loop F buf (countPairs buf) (k + 1) st'"
    using loop_advance(2) [OF assms(1,2,6,3,4)] b by simp
  show ?thesis
    using 1 2 st'_def pt_def by (simp add: parseSegments_def)
qed

lemma getInt32_at:
  assumes "- 2147483648 \<le> v" "v \<le> 2147483647" "buf = pre @ int32_le v @ post" "off = int (length pre)"
  shows "getInt32 buf off = Inr v"
  using getInt32_int32_le [OF assms(1,2), of pre post] assms(3,4) by simp

lemma length_int32_le [simp]: "length (int32_le v) = 4"
  by (simp add: int32_le_def Let_def)

lemma length_record_le [simp]: "length (record_le a b) = 8"
  by (simp add: record_le_def)

lemma buf2_count: "countPairs buf2 = 3"
  by (simp add: countPairs_def buf2_def ToInt32_def)

lemma buf2_reads:
  "getInt32 buf2 0 = Inr 0" "getInt32 buf2 4 = Inr 0" "getInt32 buf2 8 = Inr 0"
  "getInt32 buf2 12 = Inr 0" "getInt32 buf2 16 = Inr 0" "getInt32 buf2 20 = Inr 1800000000"
proof -
  show "getInt32 buf2 0 = Inr 0"
    by (rule getInt32_at [where pre = "[]" and post = "int32_le 0 @ record_le 0 0 @ record_le 0 1800000000"])
       (simp_all add: buf2_def record_le_def)
  show "getInt32 buf2 4 = Inr 0"
    by (rule getInt32_at [where pre = "int32_le 0" and post = "record_le 0 0 @ record_le 0 1800000000"])
       (simp_all add: buf2_def record_le_def)
  show "getInt32 buf2 8 = Inr 0"
    by (rule getInt32_at [where pre = "record_le 0 0" and post = "int32_le 0 @ record_le 0 1800000000"])
       (simp_all add: buf2_def record_le_def)
  show "getInt32 buf2 12 = Inr 0"
    by (rule getInt32_at [where pre = "record_le 0 0 @ int32_le 0" and post = "record_le 0 1800000000"])
       (simp_all add: buf2_def record_le_def)
  show "getInt32 buf2 16 = Inr 0"
    by (rule getInt32_at [where pre = "record_le 0 0 @ record_le 0 0" and post = "int32_le 1800000000"])
       (simp_all add: buf2_def record_le_def)
  show "getInt32 buf2 20 = Inr 1800000000"
    by (rule getInt32_at [where pre = "record_le 0 0 @ record_le 0 0 @ int32_le 0" and post = "[]"])
       (simp_all add: buf2_def record_le_def)
qed

lemma buf2_loop2:
  "loop exact buf2 2 0 init = Inr \<lparr>segs = [], current = [(0, 0), (0, 0)], prev = Some (0, 0)\<rparr>"
proof -
  have b0: "body exact 0 0 init = \<lparr>segs = [], current = [(0, 0)], prev = Some (0, 0)\<rparr>"
    by (simp add: body_point INT32_MIN_def init_def Let_def)
  have b1: "body exact 0 0 \<lparr>segs = [], current = [(0, 0)], prev = Some (0, 0)\<rparr>
            = \<lparr>segs = [], current = [(0, 0), (0, 0)], prev = Some (0, 0)\<rparr>"
    by (simp add: body_point INT32_MIN_def Let_def haversine_same maxGapMeters_def)
  have l1: "loop exact buf2 1 0 init = Inr \<lparr>segs = [], current = [(0, 0)], prev = Some (0, 0)\<rparr>"
    using loop_step [where F = exact and view = buf2 and k = 0 and st = init] buf2_reads(1,2) b0 by simp
  show ?thesis
    using loop_advance(1) [where F = exact and k = 1 and n = 2 and buf = buf2 and ?st0.0 = init] l1 buf2_reads(3,4) b1 by simp
qed

lemma buf2_parse: "parseSegments exact buf2 = Inr [[(0, 0), (0, 0)]]"
proof -
  have b2: "body exact 0 1800000000 \<lparr>segs = [], current = [(0, 0), (0, 0)], prev = Some (0, 0)\<rparr>
            = \<lparr>segs = [[(0, 0), (0, 0)]], current = [(0, 180)], prev = Some (0, 180)\<rparr>"
    using half_turn_is_gap by (simp add: body_point INT32_MIN_def Let_def push_current_def)
  have "loop exact buf2 3 0 init
        = Inr \<lparr>segs = [[(0, 0), (0, 0)]], current = [(0, 180)], prev = Some (0, 180)\<rparr>"
    using loop_advance(1) [where F = exact and k = 2 and n = 3 and buf = buf2 and ?st0.0 = init] buf2_loop2 buf2_reads(5,6) b2 by simp
  then show ?thesis
    by (simp add: parseSegments_def buf2_count push_current_def)
qed

lemma computed_gap_example:
  "countPairs buf2 = 3
   \<and> getInt32 buf2 16 = Inr 0 \<and> getInt32 buf2 20 = Inr 1800000000
   \<and> loop exact buf2 2 0 init = Inr \<lparr>segs = [], current = [(0, 0), (0, 0)], prev = Some (0, 0)\<rparr>
   \<and> gt_num (haversine exact 0 0 0 180) maxGapMeters
   \<and> loop exact buf2 3 0 init = Inr \<lparr>segs = [[(0, 0), (0, 0)]], current = [(0, 180)], prev = Some (0, 180)\<rparr>
   \<and> parseSegments exact buf2 = Inr [[(0, 0), (0, 0)]]"
proof -
  have far: "gt_num (haversine exact 0 0 0 180) maxGapMeters" by (rule half_turn_is_gap)
  from computed_gap_starts_new_segment
         [where F = exact and k = 2 and buf = buf2 and ?lat_e7.0 = 0 and ?lon_e7.0 = 1800000000
            and st = "\<lparr>segs = [], current = [(0, 0), (0, 0)], prev = Some (0, 0)\<rparr>" and p = "(0, 0)"]
       buf2_count buf2_reads(5,6) buf2_loop2 far
  have "loop exact buf2 3 0 init = Inr \<lparr>segs = [[(0, 0), (0, 0)]], current = [(0, 180)], prev = Some (0, 180)\<rparr>
        \<and> parseSegments exact buf2 = Inr [[(0, 0), (0, 0)]]"
    by (simp add: INT32_MIN_def loop_unfold [of exact buf2 3 3] push_current_def)
  then show ?thesis using buf2_count buf2_reads(5,6) buf2_loop2 far by simp
qed

lemma getInt32_take:
  assumes "off + 4 \<le> int m" "m \<le> length view"
  shows "getInt32 (take m view) off = getInt32 view off"
proof (cases "0 \<le> off")
  case False
  then show ?thesis by (simp add: getInt32_def)
next
  case True
  then have "nat off + 3 < m" using assms(1) by linarith
  then show ?thesis using True assms by (simp add: getInt32_def Let_def)
qed

lemma loop_take:
  assumes "n * 8 \<le> int m" "m \<le> length view"
  shows "loop F (take m view) n i st = loop F view n i st"
  using assms
proof (induction F view n i st rule: loop.induct)
  case (1 F view n i st)
  show ?case
  proof (cases "i < n")
    case False
    then show ?thesis by (simp add: loop_unfold [of F _ n i st])
  next
    case True
    have a: "getInt32 (take m view) (i * 8) = getInt32 view (i * 8)"
      by (rule getInt32_take) (use True 1 in linarith)+
    have b: "getInt32 (take m view) (i * 8 + 4) = getInt32 view (i * 8 + 4)"
      by (rule getInt32_take) (use True 1 in linarith)+
    show ?thesis
      using True a b 1
      by (simp add: loop_unfold [of F "take m view" n i st] loop_unfold [of F view n i st]
            split: sum.splits)
  qed
qed

lemma parseSegments_total: "\<exists>track. parseSegments F buf = Inr track"
proof -
  obtain st where "loop F buf (countPairs buf) 0 init = Inr st"
    using loop_total [of 0 "countPairs buf" buf F init] countPairs_fits [of buf] by auto
  then show ?thesis by (simp add: parseSegments_def)
qed

subsection \<open>Trailing bytes\<close>

text \<open>
  Claim C4. Decoding any buffer gives the same result as decoding the buffer cut down to the
  greatest multiple of 8 bytes, and that result is a track set, never an exception; so
  trailing bytes shorter than one record are ignored.
\<close>

theorem trailing_bytes_ignored:
  "parseSegments F (take (8 * (length buf div 8)) buf) = parseSegments F buf
   \<and> (\<exists>track. parseSegments F buf = Inr track)"
proof -
  let ?m = "8 * (length buf div 8)"
  have m: "?m \<le> length buf" by simp
  have len: "length (take ?m buf) = ?m" using m by simp
  have "int ?m div 8 = int (length buf) div 8" by simp
  then have c: "countPairs (take ?m buf) = countPairs buf"
    unfolding countPairs_def len by simp
  have "countPairs buf \<le> int (length buf) div 8"
    unfolding countPairs_def by (rule ToInt32_le) simp
  then have "countPairs buf * 8 \<le> int ?m" by simp
  then have "loop F (take ?m buf) (countPairs buf) 0 init = loop F buf (countPairs buf) 0 init"
    using m by (rule loop_take)
  then show ?thesis using c parseSegments_total [of F buf] by (simp add: parseSegments_def)
qed

subsection \<open>Segments have at least two points\<close>

lemma push_current_long: "long_segs st \<Longrightarrow> \<forall>s \<in> set (push_current st). 2 \<le> length s"
  by (auto simp: long_segs_def push_current_def)

lemma body_long: "long_segs st \<Longrightarrow> long_segs (body F a b st)"
  using push_current_long [of st]
  by (auto simp: body_def long_segs_def Let_def split: number.splits option.splits)

lemma loop_long: "long_segs st \<Longrightarrow> loop F view n i st = Inr st' \<Longrightarrow> long_segs st'"
proof (induction F view n i st rule: loop.induct)
  case (1 F view n i st)
  show ?case
  proof (cases "i < n")
    case False
    then show ?thesis using 1(2,3) by (simp add: loop_unfold [of F view n i st])
  next
    case True
    then obtain a b where a: "getInt32 view (i * 8) = Inr a" and b: "getInt32 view (i * 8 + 4) = Inr b"
      and r: "loop F view n (i + 1) (body F a b st) = Inr st'"
      using 1(3) by (auto simp: loop_unfold [of F view n i st] split: sum.splits)
    show ?thesis using 1(1) [OF True a b body_long [OF 1(2)] r] .
  qed
qed

lemma renderSegments_latlngs:
  "map latlngs (renderSegments c w opa track) = filter (\<lambda>seg. \<not> length seg < 2) track"
  by (induction track) auto

text \<open>
  Claim C8. Every segment of the track set returned by one decode pass has at least two
  points: a segment is appended only by \<open>push_current\<close>, which keeps the track set as it is
  when the open segment has fewer than two points, at the sentinel, at a distance split and
  at the end of input alike; \<open>renderSegments\<close> draws no segment of fewer than two points and
  draws every segment of a decoded track set.
\<close>

theorem segments_have_two_points:
  assumes "parseSegments F buf = Inr track"
  shows "(\<forall>seg \<in> set track. 2 \<le> length seg)
         \<and> (\<forall>st. length (current st) < 2 \<longrightarrow> push_current st = segs st)
         \<and> (\<forall>pl \<in> set (renderSegments c w opa any). 2 \<le> length (latlngs pl))
         \<and> map latlngs (renderSegments c w opa track) = track"
proof -
  obtain st where st: "loop F buf (countPairs buf) 0 init = Inr st" and t: "track = push_current st"
    using assms by (auto simp: parseSegments_def split: sum.splits)
  have "long_segs init" by (simp add: long_segs_def init_def)
  then have "long_segs st" using st by (rule loop_long)
  then have 1: "\<forall>seg \<in> set track. 2 \<le> length seg"
    unfolding t by (rule push_current_long)
  have "set (map latlngs (renderSegments c w opa any)) \<subseteq> {seg. 2 \<le> length seg}"
    unfolding renderSegments_latlngs by auto
  then have 2: "\<forall>pl \<in> set (renderSegments c w opa any). 2 \<le> length (latlngs pl)"
    by auto
  have 3: "map latlngs (renderSegments c w opa track) = track"
    unfolding renderSegments_latlngs using 1 by (induction track) auto
  have 4: "\<forall>st. length (current st) < 2 \<longrightarrow> push_current st = segs st"
    by (simp add: push_current_def)
  show ?thesis using 1 2 3 4 by blast
qed

theorem segments_have_two_points_witness:
  "parseSegments exact buf2 = Inr [[(0, 0), (0, 0)]]
   \<and> list_all (\<lambda>seg. 2 \<le> length seg) [[(0, 0), (0, 0) :: point]]
   \<and> map latlngs (renderSegments ''#ffd400'' 3 0.8 [[(0, 0), (0, 0)]]) = [[(0, 0), (0, 0)]]
   \<and> renderSegments ''#ffd400'' 3 0.8 [[(1, 1)]] = []"
  using segments_have_two_points [OF buf2_parse, where c = "''#ffd400''" and w = 3 and opa = "0.8"
          and any = "[[(1, 1)]]"] buf2_parse
  by simp

lemma body_point_prev:
  assumes "- 2147483648 \<le> a" "a \<le> 2147483647" "- 2147483648 \<le> b" "b \<le> 2147483647"
    and "\<not> (a = INT32_MIN \<and> b = INT32_MIN)"
  shows "prev (body F a b st) = Some (rnd F (real_of_int a / 10000000), rnd F (real_of_int b / 10000000))"
    and "current (body F a b st) \<noteq> []"
    and "last (current (body F a b st)) = (rnd F (real_of_int a / 10000000), rnd F (real_of_int b / 10000000))"
  by (simp_all add: body_point [OF assms] Let_def split: option.splits)

subsection \<open>Finite coordinates\<close>

text \<open>
  Claim C9. For any two fields read by \<open>getInt32\<close>, both quotients by \<open>1e7\<close> are finite, so
  the skip branch for non-finite coordinates is never taken, and every record that is not
  the sentinel appends its point to the open segment and makes it the previous point.
\<close>

theorem non_finite_branch_unreachable:
  assumes "getInt32 view off1 = Inr lat_e7" "getInt32 view off2 = Inr lon_e7"
  shows "isFinite (divide_num F (real_of_int lat_e7) 10000000)
         \<and> isFinite (divide_num F (real_of_int lon_e7) 10000000)
         \<and> (\<not> (lat_e7 = INT32_MIN \<and> lon_e7 = INT32_MIN) \<longrightarrow>
              prev (body F lat_e7 lon_e7 st)
                = Some (rnd F (real_of_int lat_e7 / 10000000), rnd F (real_of_int lon_e7 / 10000000))
              \<and> current (body F lat_e7 lon_e7 st) \<noteq> []
              \<and> last (current (body F lat_e7 lon_e7 st))
                = (rnd F (real_of_int lat_e7 / 10000000), rnd F (real_of_int lon_e7 / 10000000)))"
proof -
  have ra: "- 2147483648 \<le> lat_e7" "lat_e7 \<le> 2147483647"
    using getInt32_range [OF assms(1)] by simp_all
  have rb: "- 2147483648 \<le> lon_e7" "lon_e7 \<le> 2147483647"
    using getInt32_range [OF assms(2)] by simp_all
  show ?thesis
    using body_point_prev [OF ra rb, where F = F and st = st]
    by (simp add: isFinite_divide_int32 [OF ra] isFinite_divide_int32 [OF rb])
qed

lemma parse_two_same:
  assumes "- 2147483648 \<le> a" "a \<le> 2147483647" "- 2147483648 \<le> b" "b \<le> 2147483647"
    and "\<not> (a = INT32_MIN \<and> b = INT32_MIN)"
  shows "parseSegments F (record_le a b @ record_le a b)
         = Inr [[(rnd F (real_of_int a / 10000000), rnd F (real_of_int b / 10000000)),
                 (rnd F (real_of_int a / 10000000), rnd F (real_of_int b / 10000000))]]"
proof -
  let ?buf = "record_le a b @ record_le a b"
  let ?pt = "(rnd F (real_of_int a / 10000000), rnd F (real_of_int b / 10000000))"
  have c: "countPairs ?buf = 2" by (simp add: countPairs_def ToInt32_def)
  have g0: "getInt32 ?buf 0 = Inr a"
    by (rule getInt32_at [OF assms(1,2), where pre = "[]" and post = "int32_le b @ record_le a b"])
       (simp_all add: record_le_def)
  have g4: "getInt32 ?buf 4 = Inr b"
    by (rule getInt32_at [OF assms(3,4), where pre = "int32_le a" and post = "record_le a b"])
       (simp_all add: record_le_def)
  have g8: "getInt32 ?buf 8 = Inr a"
    by (rule getInt32_at [OF assms(1,2), where pre = "record_le a b" and post = "int32_le b"])
       (simp_all add: record_le_def)
  have g12: "getInt32 ?buf 12 = Inr b"
    by (rule getInt32_at [OF assms(3,4), where pre = "record_le a b @ int32_le a" and post = "[]"])
       (simp_all add: record_le_def)
  have b0: "body F a b init = \<lparr>segs = [], current = [?pt], prev = Some ?pt\<rparr>"
    by (simp add: body_point [OF assms] init_def Let_def)
  have b1: "body F a b \<lparr>segs = [], current = [?pt], prev = Some ?pt\<rparr>
            = \<lparr>segs = [], current = [?pt, ?pt], prev = Some ?pt\<rparr>"
    by (simp add: body_point [OF assms] Let_def haversine_same maxGapMeters_def)
  have l1: "loop F ?buf 1 0 init = Inr \<lparr>segs = [], current = [?pt], prev = Some ?pt\<rparr>"
    using loop_step [where F = F and view = ?buf and k = 0 and st = init] g0 g4 b0 by simp
  have l2: "loop F ?buf 2 0 init = Inr \<lparr>segs = [], current = [?pt, ?pt], prev = Some ?pt\<rparr>"
    using loop_advance(1) [where F = F and k = 1 and n = 2 and buf = ?buf and ?st0.0 = init] l1 g8 g12 b1 by simp
  show ?thesis
    unfolding parseSegments_def c l2 by (simp add: push_current_def)
qed

subsection \<open>Records with one minimal field, and coordinates out of range\<close>

text \<open>
  Claim C10. A record that is not the sentinel, in particular one with exactly one field equal
  to \<open>-2147483648\<close>, is decoded as an ordinary point: the field \<open>-2147483648\<close> becomes the
  coordinate \<open>-214.7483648\<close>, rounded to a double. No range is checked: a buffer of two such records decodes to
  one segment holding the point twice, whatever the coordinates.
\<close>

theorem one_min_field_is_a_point:
  assumes "getInt32 view off1 = Inr lat_e7" "getInt32 view off2 = Inr lon_e7"
    and "\<not> (lat_e7 = INT32_MIN \<and> lon_e7 = INT32_MIN)"
  shows "\<exists>pt. pt = (rnd F (real_of_int lat_e7 / 10000000), rnd F (real_of_int lon_e7 / 10000000))
           \<and> (lat_e7 = INT32_MIN \<longrightarrow> fst pt = rnd F (- 214.7483648))
           \<and> (lon_e7 = INT32_MIN \<longrightarrow> snd pt = rnd F (- 214.7483648))
           \<and> prev (body F lat_e7 lon_e7 st) = Some pt
           \<and> current (body F lat_e7 lon_e7 st) \<noteq> []
           \<and> last (current (body F lat_e7 lon_e7 st)) = pt
           \<and> parseSegments F (record_le lat_e7 lon_e7 @ record_le lat_e7 lon_e7) = Inr [[pt, pt]]"
proof -
  have ra: "- 2147483648 \<le> lat_e7" "lat_e7 \<le> 2147483647"
    using getInt32_range [OF assms(1)] by simp_all
  have rb: "- 2147483648 \<le> lon_e7" "lon_e7 \<le> 2147483647"
    using getInt32_range [OF assms(2)] by simp_all
  show ?thesis
    using body_point_prev [OF ra rb assms(3), where F = F and st = st] parse_two_same [OF ra rb assms(3), of F]
    by (simp add: INT32_MIN_def)
qed

lemma buf3_reads: "getInt32 buf3 0 = Inr (- 2147483648)" "getInt32 buf3 4 = Inr 0"
proof -
  show "getInt32 buf3 0 = Inr (- 2147483648)"
    by (rule getInt32_at [where pre = "[]" and post = "int32_le 0 @ record_le (- 2147483648) 0"])
       (simp_all add: buf3_def record_le_def)
  show "getInt32 buf3 4 = Inr 0"
    by (rule getInt32_at [where pre = "int32_le (- 2147483648)" and post = "record_le (- 2147483648) 0"])
       (simp_all add: buf3_def record_le_def)
qed

theorem one_min_field_is_a_point_witness:
  "getInt32 buf3 0 = Inr (- 2147483648) \<and> getInt32 buf3 4 = Inr 0
   \<and> \<not> (- 2147483648 = INT32_MIN \<and> (0::int) = INT32_MIN)
   \<and> body exact (- 2147483648) 0 init
       = \<lparr>segs = [], current = [(- 214.7483648, 0)], prev = Some (- 214.7483648, 0)\<rparr>
   \<and> parseSegments exact buf3 = Inr [[(- 214.7483648, 0), (- 214.7483648, 0)]]"
proof -
  have ns: "\<not> (- 2147483648 = INT32_MIN \<and> (0::int) = INT32_MIN)" by (simp add: INT32_MIN_def)
  have b: "body exact (- 2147483648) 0 init
       = \<lparr>segs = [], current = [(- 214.7483648, 0)], prev = Some (- 214.7483648, 0)\<rparr>"
    by (simp add: body_point INT32_MIN_def init_def Let_def)
  from one_min_field_is_a_point [OF buf3_reads ns, where F = exact and st = init]
  have "parseSegments exact buf3 = Inr [[(- 214.7483648, 0), (- 214.7483648, 0)]]"
    by (simp add: buf3_def)
  then show ?thesis using buf3_reads ns b by simp
qed

theorem non_finite_branch_unreachable_witness:
  "getInt32 buf3 0 = Inr (- 2147483648) \<and> getInt32 buf3 4 = Inr 0
   \<and> isFinite (divide_num exact (real_of_int (- 2147483648)) 10000000)
   \<and> divide_num exact (real_of_int (- 2147483648)) 10000000 = Num (- 214.7483648)
   \<and> prev (body exact (- 2147483648) 0 init) = Some (- 214.7483648, 0)"
proof -
  have "divide_num exact (real_of_int (- 2147483648)) 10000000 = Num (- 214.7483648)"
    using isFinite_divide_int32 [of "- 2147483648" exact] by simp
  moreover have "isFinite (divide_num exact (real_of_int (- 2147483648)) 10000000)
      \<and> prev (body exact (- 2147483648) 0 init) = Some (- 214.7483648, 0)"
    using non_finite_branch_unreachable [OF buf3_reads, where F = exact and st = init] by (simp add: INT32_MIN_def)
  ultimately show ?thesis using buf3_reads by simp
qed






section \<open>Properties of the stream loader\<close>

lemma updateLoading_calls [simp]:
  "calls (updateLoading p u) = calls u @ [p]"
  "shown (updateLoading p u) = shown u @ [max 0 (min 100 p)]"
  "hidden (updateLoading p u) = hidden u"
  by (simp_all add: updateLoading_def Let_def)

lemma percent_mono: "0 < tot \<Longrightarrow> a \<le> b \<Longrightarrow> percent F a tot \<le> percent F b tot"
proof -
  assume t: "0 < tot" and ab: "a \<le> b"
  have "real_of_int a / real_of_int tot \<le> real_of_int b / real_of_int tot"
    using t ab by (simp add: divide_right_mono)
  then have "rnd F (real_of_int a / real_of_int tot) * 100 \<le> rnd F (real_of_int b / real_of_int tot) * 100"
    using rnd_mono by simp
  then show ?thesis
    unfolding percent_def fmul_def fdiv_def by (intro floor_mono rnd_mono)
qed

lemma percent_le_100: "0 < tot \<Longrightarrow> a \<le> tot \<Longrightarrow> percent F a tot \<le> 100"
proof -
  assume t: "0 < tot" and a: "a \<le> tot"
  have "real_of_int a / real_of_int tot \<le> 1" using t a by simp
  then have "rnd F (real_of_int a / real_of_int tot) \<le> 1" using rnd_mono [of _ 1 F] by simp
  then have "rnd F (rnd F (real_of_int a / real_of_int tot) * 100) \<le> 100"
    using rnd_mono [of _ 100 F] by simp
  then have "\<lfloor>rnd F (rnd F (real_of_int a / real_of_int tot) * 100)\<rfloor> \<le> 100"
    by (simp add: floor_le_iff)
  then show ?thesis by (simp add: percent_def fmul_def fdiv_def)
qed

lemma percent_nonneg: "0 < tot \<Longrightarrow> 0 \<le> a \<Longrightarrow> 0 \<le> percent F a tot"
proof -
  assume t: "0 < tot" and a: "0 \<le> a"
  have "0 \<le> real_of_int a / real_of_int tot" using t a by simp
  then have "0 \<le> rnd F (real_of_int a / real_of_int tot)" using rnd_mono [of 0 _ F] by simp
  then have "0 \<le> rnd F (rnd F (real_of_int a / real_of_int tot) * 100)"
    using rnd_mono [of 0 _ F] by simp
  then show ?thesis by (simp add: percent_def fmul_def fdiv_def)
qed

lemma percent_0 [simp]: "percent F 0 tot = 0"
  by (simp add: percent_def fmul_def fdiv_def)

lemma percent_exact: "percent exact a tot = \<lfloor>real_of_int a / real_of_int tot * 100\<rfloor>"
  by (simp add: percent_def fmul_def fdiv_def)

lemma target_set_ok:
  assumes "target_set val off s = Inr s1" "0 \<le> off"
  shows "length (target s1) = length (target s)" "off + int (length val) \<le> int (length (target s))"
    "received s1 = received s" "offset s1 = offset s" "bar s1 = bar s" "lastShown s1 = lastShown s"
    "chunks s1 = chunks s"
  using assms by (auto simp: target_set_def split: if_splits)

lemma read_loop_known:
  assumes "0 < tot" "read_loop F tot rs s = (r, s')"
    and "0 \<le> offset s" "received s = offset s" "int (length (target s)) = tot"
  shows "\<exists>ps. calls (bar s') = calls (bar s) @ ps \<and> shown (bar s') = shown (bar s) @ ps
              \<and> hidden (bar s') = hidden (bar s)
              \<and> list_all (\<lambda>p. percent F (received s) tot \<le> p \<and> p \<le> 100) ps \<and> sorted ps"
  using assms(2-)
proof (induction rs arbitrary: s)
  case Nil
  then show ?case by simp
next
  case (Cons x rs)
  show ?case
  proof (cases x)
    case (Inl e)
    then show ?thesis using Cons.prems by simp
  next
    case (Inr val)
    show ?thesis
    proof (cases "target_set val (offset s) s")
      case (Inl e)
      then show ?thesis using Cons.prems Inr assms(1) by simp
    next
      case tr: (Inr s1)
      note ok = target_set_ok [OF tr Cons.prems(2)]
      define s2 where "s2 = s1\<lparr>offset := offset s1 + int (length val),
                               received := received s1 + int (length val)\<rparr>"
      define p where "p = percent F (received s2) tot"
      define s3 where "s3 = (if p \<noteq> lastShown s2
                             then s2\<lparr>bar := updateLoading p (bar s2), lastShown := p\<rparr> else s2)"
      have run: "read_loop F tot rs s3 = (r, s')"
        using Cons.prems(1) Inr tr assms(1)
        by (auto simp: s3_def p_def s2_def Let_def split: if_splits)
      have r2: "received s2 = received s + int (length val)" "offset s2 = received s2"
        "length (target s2) = length (target s)" "bar s2 = bar s"
        using ok Cons.prems(3) by (simp_all add: s2_def)
      have r3: "received s3 = received s2" "offset s3 = offset s2" "target s3 = target s2"
        by (simp_all add: s3_def)
      have le: "received s2 \<le> tot" using ok(2) r2 Cons.prems(3,4) by simp
      have ge: "received s \<le> received s2" using r2 by simp
      have nn: "0 \<le> received s2" using ge Cons.prems(2,3) by simp
      have p100: "p \<le> 100" unfolding p_def using assms(1) le by (rule percent_le_100)
      have p0: "0 \<le> p" unfolding p_def using assms(1) nn by (rule percent_nonneg)
      have pge: "percent F (received s) tot \<le> p" unfolding p_def using assms(1) ge by (rule percent_mono)
      obtain ps where ps: "calls (bar s') = calls (bar s3) @ ps" "shown (bar s') = shown (bar s3) @ ps"
        "hidden (bar s') = hidden (bar s3)"
        "list_all (\<lambda>q. percent F (received s3) tot \<le> q \<and> q \<le> 100) ps" "sorted ps"
        using Cons.IH [OF run] r2 r3 nn Cons.prems(4) by auto
      have lift: "list_all (\<lambda>q. percent F (received s) tot \<le> q \<and> q \<le> 100) ps"
        using ps(4) pge unfolding r3 p_def [symmetric] by (auto simp: list_all_iff)
      have pall: "\<forall>q \<in> set ps. p \<le> q"
        using ps(4) unfolding r3 p_def [symmetric] by (auto simp: list_all_iff)
      show ?thesis
      proof (cases "p \<noteq> lastShown s2")
        case False
        then have "bar s3 = bar s" using r2 by (simp add: s3_def)
        then show ?thesis using ps lift by auto
      next
        case True
        then have b3: "calls (bar s3) = calls (bar s) @ [p]" "shown (bar s3) = shown (bar s) @ [p]"
          "hidden (bar s3) = hidden (bar s)"
          using r2 p0 p100 by (simp_all add: s3_def)
        have "sorted (p # ps)" using ps(5) pall by simp
        moreover have "list_all (\<lambda>q. percent F (received s) tot \<le> q \<and> q \<le> 100) (p # ps)"
          using lift pge p100 by simp
        ultimately show ?thesis using ps(1,2,3) b3 by (intro exI [of _ "p # ps"]) simp
      qed
    qed
  qed
qed

lemma read_loop_unknown:
  assumes "\<not> 0 < tot" "read_loop F tot rs s = (r, s')"
  shows "bar s' = bar s"
  using assms(2)
proof (induction rs arbitrary: s)
  case Nil
  then show ?case by simp
next
  case (Cons x rs)
  show ?case
  proof (cases x)
    case (Inl e)
    then show ?thesis using Cons.prems by simp
  next
    case (Inr val)
    then have "read_loop F tot rs (s\<lparr>chunks := chunks s @ [val],
                 received := received s + int (length val)\<rparr>) = (r, s')"
      using Cons.prems assms(1) by (simp add: Let_def)
    from Cons.IH [OF this] show ?thesis by simp
  qed
qed

lemma read_loop_progress:
  assumes "read_loop F tot rs s0 = (r, s')"
    and "s0 = \<lparr>received = 0, lastShown = - 1, offset = 0,
                target = (if 0 < tot then replicate (nat tot) 0 else []),
                chunks = [], bar = b\<rparr>"
  shows "\<exists>ps. calls (bar s') = calls b @ ps \<and> shown (bar s') = shown b @ ps
              \<and> list_all (\<lambda>p. 0 \<le> p \<and> p \<le> 100) ps \<and> sorted ps"
proof (cases "0 < tot")
  case True
  have "\<exists>ps. calls (bar s') = calls (bar s0) @ ps \<and> shown (bar s') = shown (bar s0) @ ps
              \<and> hidden (bar s') = hidden (bar s0)
              \<and> list_all (\<lambda>p. percent F (received s0) tot \<le> p \<and> p \<le> 100) ps \<and> sorted ps"
    using True assms(1) by (rule read_loop_known) (use True in \<open>simp_all add: assms(2)\<close>)
  then show ?thesis by (auto simp: assms(2))
next
  case False
  then have "bar s' = bar s0" using assms(1) by (rule read_loop_unknown)
  then show ?thesis by (intro exI [of _ "[]"]) (simp add: assms(2))
qed

lemma showLoading_calls [simp]:
  "calls (showLoading u) = calls u @ [0]" "shown (showLoading u) = shown u @ [0]"
  by (simp_all add: showLoading_def)

lemma hideLoading_calls [simp]:
  "calls (hideLoading u) = calls u" "shown (hideLoading u) = shown u"
  by (simp_all add: hideLoading_def)

text \<open>
  Claim C5. For every load, whatever the cache, the response and the sequence of chunks, the
  percentages delivered to \<open>updateLoading\<close> during the load (and the values it displays) all
  lie between 0 and 100 and never decrease; when the load returns to its caller, the last
  one is 100.
\<close>

theorem progress_ends_at_100:
  "\<exists>ps. calls (loading (fst (loadBinary F e net u w))) = calls (loading w) @ ps
         \<and> shown (loading (fst (loadBinary F e net u w))) = shown (loading w) @ ps
         \<and> list_all (\<lambda>p. 0 \<le> p \<and> p \<le> 100) ps \<and> sorted ps \<and> ps \<noteq> []
         \<and> ((\<exists>track. snd (loadBinary F e net u w) = Inr track) \<longrightarrow> last ps = 100)"
proof -
  let ?w' = "fst (loadBinary F e net u w)" and ?r = "snd (loadBinary F e net u w)"
  obtain cache cachedRes s1 where om: "open_and_match e u (storage w) = (cache, cachedRes, s1)"
    by (cases "open_and_match e u (storage w)") auto
  have only0: ?thesis
    if "loading ?w' = showLoading (loading w)" "\<exists>err. ?r = Inl err"
    using that by (intro exI [of _ "[0]"]) auto
  have upto100: ?thesis
    if "loading ?w' = hideLoading (updateLoading 100 (showLoading (loading w)))"
    using that by (intro exI [of _ "[0, 100]"]) simp
  show ?thesis
  proof (cases cachedRes)
    case (Some buf)
    show ?thesis
      by (rule upto100) (use om Some in \<open>simp add: loadBinary_def Let_def\<close>)
  next
    case None
    show ?thesis
    proof (cases net)
      case (Inl err)
      show ?thesis by (rule only0) (use om None Inl in \<open>simp_all add: loadBinary_def Let_def\<close>)
    next
      case (Inr res)
      show ?thesis
      proof (cases "ok res")
        case False
        show ?thesis
          by (rule only0) (use om None Inr False in \<open>simp_all add: loadBinary_def Let_def\<close>)
      next
        case ok: True
        show ?thesis
        proof (cases "streamable res")
          case False
          show ?thesis
          proof (cases "whole res")
            case (Inl err)
            show ?thesis
              by (rule only0)
                 (use om None Inr ok False Inl in \<open>simp_all add: loadBinary_def Let_def\<close>)
          next
            case b: (Inr buf)
            show ?thesis
              by (rule upto100)
                 (use om None Inr ok False b in \<open>simp add: loadBinary_def Let_def\<close>)
          qed
        next
          case True
          define s0 where "s0 = \<lparr>received = 0, lastShown = - 1, offset = 0,
                target = (if 0 < content_length res
                          then replicate (nat (content_length res)) 0 else []),
                chunks = [], bar = showLoading (loading w)\<rparr>"
          obtain r s where rl: "read_loop F (content_length res) (reads res) s0 = (r, s)"
            by (cases "read_loop F (content_length res) (reads res) s0") auto
          obtain ps where ps: "calls (bar s) = calls (showLoading (loading w)) @ ps"
            "shown (bar s) = shown (showLoading (loading w)) @ ps"
            "list_all (\<lambda>p. 0 \<le> p \<and> p \<le> 100) ps" "sorted ps"
            using read_loop_progress [OF rl s0_def] by auto
          show ?thesis
          proof (cases r)
            case (Some err)
            have "loading ?w' = bar s" "?r = Inl err"
              using om None Inr ok True rl [unfolded s0_def] Some
              by (simp_all add: loadBinary_def Let_def)
            moreover have "sorted (0 # ps)" using ps(3,4) by (auto simp: list_all_iff)
            ultimately show ?thesis
              using ps by (intro exI [of _ "0 # ps"]) simp
          next
            case rn: None
            have "loading ?w' = hideLoading (updateLoading 100 (bar s))"
              using om None Inr ok True rl [unfolded s0_def] rn
              by (simp add: loadBinary_def Let_def)
            moreover have "sorted (0 # ps @ [100])"
              using ps(3,4) by (auto simp: sorted_append list_all_iff)
            ultimately show ?thesis
              using ps by (intro exI [of _ "0 # ps @ [100]"]) (simp add: list_all_iff)
          qed
        qed
      qed
    qed
  qed
qed


lemma load_two_chunks:
  "loadBinary exact env0 (Inr res_two_chunks) ''points.bin'' world0
   = (world0\<lparr>loading := \<lparr>hidden = True, calls = [0, 50, 100, 100], shown = [0, 50, 100, 100]\<rparr>\<rparr>,
      Inr [[(0, 0), (0, 0)]])"
proof -
  have p: "parseSegments exact (record_le 0 0 @ record_le 0 0) = Inr [[(0, 0), (0, 0)]]"
    using parse_two_same [of 0 0 exact] by (simp add: INT32_MIN_def)
  show ?thesis
    by (simp add: loadBinary_def open_and_match_def env0_def world0_def res_two_chunks_def
          Let_def target_set_def showLoading_def hideLoading_def updateLoading_def
          put_best_effort_def percent_exact p)
qed








theorem progress_ends_at_100_witness:
  "loadBinary exact env0 (Inr res_two_chunks) ''points.bin'' world0
     = (world0\<lparr>loading := \<lparr>hidden = True, calls = [0, 50, 100, 100], shown = [0, 50, 100, 100]\<rparr>\<rparr>,
        Inr [[(0, 0), (0, 0)]])
   \<and> (\<exists>ps. calls (loading (fst (loadBinary exact env0 (Inr res_two_chunks) ''points.bin'' world0)))
                = calls (loading world0) @ ps
            \<and> list_all (\<lambda>p. 0 \<le> p \<and> p \<le> 100) ps \<and> sorted ps \<and> last ps = 100)
   \<and> [0, 50, 100, 100 :: int] = calls (loading world0) @ [0, 50, 100, 100]"
proof -
  have r: "\<exists>track. snd (loadBinary exact env0 (Inr res_two_chunks) ''points.bin'' world0) = Inr track"
    by (simp add: load_two_chunks)
  have "\<exists>ps. calls (loading (fst (loadBinary exact env0 (Inr res_two_chunks) ''points.bin'' world0)))
                = calls (loading world0) @ ps
            \<and> list_all (\<lambda>p. 0 \<le> p \<and> p \<le> 100) ps \<and> sorted ps \<and> last ps = 100"
    using progress_ends_at_100 [of exact env0 "Inr res_two_chunks" "''points.bin''" world0] r by blast
  moreover have "[0, 50, 100, 100 :: int] = calls (loading world0) @ [0, 50, 100, 100]"
    by (simp add: world0_def)
  ultimately show ?thesis using load_two_chunks by blast
qed

section \<open>Properties of the summary loader\<close>

lemma map_of_put:
  "map_of (map (\<lambda>(k, c). if k = name then (k, f c) else (k, c)) s) key
   = map_option (\<lambda>c. if key = name then f c else c) (map_of s key)"
  by (induction s) auto

lemma app_entries_open:
  assumes "caches_open e name s = Inr s'"
  shows "app_entries s' = app_entries s"
proof -
  have "s' = (if name \<in> set (caches_keys s) then s else s @ [(name, Map.empty)])"
    using assms by (auto simp: caches_open_def split: if_splits)
  moreover have "name \<notin> set (caches_keys s) \<Longrightarrow> name = CACHE_NAME \<Longrightarrow> map_of s CACHE_NAME = None"
    by (simp add: caches_keys_def map_of_eq_None_iff)
  ultimately show ?thesis
    by (auto simp: app_entries_def map_add_def caches_keys_def split: option.splits)
qed

lemma open_cache_cases:
  "open_cache e s = (cache, s1) \<Longrightarrow>
   app_entries s1 = app_entries s
   \<and> (cache = None \<or> cache = Some CACHE_NAME \<and> CACHE_NAME \<in> set (caches_keys s1))
   \<and> (has_caches e \<and> \<not> open_fails e \<longrightarrow> cache = Some CACHE_NAME)
   \<and> (\<not> has_caches e \<or> open_fails e \<longrightarrow> cache = None)"
  using app_entries_open [of e CACHE_NAME s]
  by (auto simp: open_cache_def caches_open_def caches_keys_def split: if_splits sum.splits)

lemma app_entries_put_same:
  assumes "CACHE_NAME \<in> set (caches_keys s)" "cache_put e CACHE_NAME u b s = Inr s'"
  shows "app_entries s' = (app_entries s)(u \<mapsto> b)"
proof -
  obtain c where c: "map_of s CACHE_NAME = Some c"
    using assms(1) by (cases "map_of s CACHE_NAME") (auto simp: caches_keys_def map_of_eq_None_iff)
  have "s' = map (\<lambda>(k, c). if k = CACHE_NAME then (k, c(u \<mapsto> b)) else (k, c)) s"
    using assms(2) by (auto simp: cache_put_def split: if_splits)
  then show ?thesis by (simp add: app_entries_def map_of_put c)
qed

lemma cache_match_app:
  "\<not> match_fails e \<Longrightarrow> cache_match e CACHE_NAME u s = Inr (app_entries s u)"
  by (simp add: cache_match_def app_entries_def split: option.splits)

lemma setVal_present:
  "totalKm w = Some old \<Longrightarrow> totalKm (setVal v w) = Some v \<and> storage (setVal v w) = storage w"
  by (simp add: setVal_def)

lemma loadSummary_returns: "\<exists>w'. loadSummary e net parse stringify u w = Inr w'"
  by (auto simp: loadSummary_def Let_def split: prod.splits sum.splits option.splits)

text \<open>
  Claim C7. With the \<open>totalKm\<close> element present: when the request succeeds and the body
  parses to data whose \<open>total_km\<close> formats, the formatted figure is shown and the body is put
  in the cache when the cache can be opened and written, the display being the same when it
  cannot; when the request fails or is not ok and the cache holds an entry that parses and
  formats, the cached figure is shown; when the request fails and there is no cache or no
  entry, \<open>--\<close> is shown; the load never throws; a missing \<open>total_km\<close> formats as 0.
\<close>

theorem summary_is_network_first:
  assumes "totalKm w = Some old"
  shows "(net = Inr res \<and> ok res \<and> response_json parse res = Inr data \<and> summary_text data = Inr t \<longrightarrow>
            (\<exists>w'. loadSummary e net parse stringify u w = Inr w' \<and> totalKm w' = Some t
               \<and> (has_caches e \<and> \<not> open_fails e \<and> \<not> put_fails e \<longrightarrow>
                    app_entries (storage w') u = Some (stringify data))
               \<and> (\<not> has_caches e \<or> open_fails e \<or> put_fails e \<longrightarrow>
                    app_entries (storage w') = app_entries (storage w))))
       \<and> ((net = Inl err \<or> net = Inr res \<and> \<not> ok res) \<and> has_caches e \<and> \<not> open_fails e
            \<and> \<not> match_fails e \<and> app_entries (storage w) u = Some b
            \<and> parse b = Inr data \<and> summary_text data = Inr t \<longrightarrow>
            (\<exists>w'. loadSummary e net parse stringify u w = Inr w' \<and> totalKm w' = Some t))
       \<and> ((net = Inl err \<or> net = Inr res \<and> \<not> ok res)
            \<and> (\<not> has_caches e \<or> open_fails e \<or> app_entries (storage w) u = None) \<longrightarrow>
            (\<exists>w'. loadSummary e net parse stringify u w = Inr w'
               \<and> totalKm w' = Some (Literal ''--'')))
       \<and> (\<exists>w'. loadSummary e net parse stringify u w = Inr w')
       \<and> (map_of (rev kvs) ''total_km'' = None \<longrightarrow> summary_text (JObj kvs) = Inr (Fixed2 0))"
proof -
  obtain cache s1 where oc: "open_cache e (storage w) = (cache, s1)"
    by (cases "open_cache e (storage w)") auto
  note occ = open_cache_cases [OF oc]
  define w1 where "w1 = w\<lparr>storage := s1\<rparr>"
  have w1: "totalKm w1 = Some old" "storage w1 = s1" using assms by (simp_all add: w1_def)
  have ls: "loadSummary e net parse stringify u w =
      (case summary_network e net parse stringify u cache w1 of
           Inr (Some w') \<Rightarrow> Inr w'
         | _ \<Rightarrow>
             (case (case cache of
                      None \<Rightarrow> Inr None
                    | Some name \<Rightarrow> summary_cached e parse u name w1) of
                Inr (Some w') \<Rightarrow> Inr w'
              | _ \<Rightarrow> Inr (setVal (Literal ''--'') w1)))"
    unfolding loadSummary_def oc w1_def Let_def by simp
  have A: "\<exists>w'. loadSummary e net parse stringify u w = Inr w' \<and> totalKm w' = Some t
               \<and> (has_caches e \<and> \<not> open_fails e \<and> \<not> put_fails e \<longrightarrow>
                    app_entries (storage w') u = Some (stringify data))
               \<and> (\<not> has_caches e \<or> open_fails e \<or> put_fails e \<longrightarrow>
                    app_entries (storage w') = app_entries (storage w))"
    if h: "net = Inr res" "ok res" "response_json parse res = Inr data" "summary_text data = Inr t"
  proof -
    define w' where "w' = (setVal t w1)\<lparr>storage :=
          put_best_effort e cache u (stringify data) (storage (setVal t w1))\<rparr>"
    have sn: "summary_network e net parse stringify u cache w1 = Inr (Some w')"
      using h by (simp add: summary_network_def Let_def w'_def)
    have st: "storage w' = put_best_effort e cache u (stringify data) s1"
      using setVal_present [OF w1(1), of t] w1(2) by (simp add: w'_def)
    have t: "totalKm w' = Some t"
      using setVal_present [OF w1(1), of t] by (simp add: w'_def)
    have p1: "app_entries (storage w') u = Some (stringify data)"
      if g: "has_caches e" "\<not> open_fails e" "\<not> put_fails e"
    proof -
      have c: "cache = Some CACHE_NAME" "CACHE_NAME \<in> set (caches_keys s1)" using occ g by auto
      obtain s2 where s2: "cache_put e CACHE_NAME u (stringify data) s1 = Inr s2"
        using g(3) by (simp add: cache_put_def)
      have "storage w' = s2" using st c s2 by (simp add: put_best_effort_def)
      then show ?thesis using app_entries_put_same [OF c(2) s2] by simp
    qed
    have p2: "app_entries (storage w') = app_entries (storage w)"
      if "\<not> has_caches e \<or> open_fails e \<or> put_fails e"
    proof -
      have "storage w' = s1"
        using that st occ by (auto simp: put_best_effort_def cache_put_def split: option.splits)
      then show ?thesis using occ by simp
    qed
    show ?thesis using sn t p1 p2 by (simp add: ls)
  qed
  have fail: "summary_network e net parse stringify u cache w1 = Inl err
              \<or> summary_network e net parse stringify u cache w1 = Inr None"
    if "net = Inl err \<or> net = Inr res \<and> \<not> ok res"
    using that by (auto simp: summary_network_def)
  have B: "\<exists>w'. loadSummary e net parse stringify u w = Inr w' \<and> totalKm w' = Some t"
    if h: "net = Inl err \<or> net = Inr res \<and> \<not> ok res" "has_caches e" "\<not> open_fails e"
      "\<not> match_fails e" "app_entries (storage w) u = Some b" "parse b = Inr data"
      "summary_text data = Inr t"
  proof -
    have c: "cache = Some CACHE_NAME" using occ h by auto
    have m: "cache_match e CACHE_NAME u (storage w1) = Inr (Some b)"
      using cache_match_app [OF h(4), of u s1] occ h(5) w1(2) by simp
    have sc: "summary_cached e parse u CACHE_NAME w1 = Inr (Some (setVal t w1))"
      using m h(6,7) by (simp add: summary_cached_def)
    show ?thesis
      using fail [OF h(1)] c sc setVal_present [OF w1(1), of t] by (auto simp: ls)
  qed
  have C: "\<exists>w'. loadSummary e net parse stringify u w = Inr w' \<and> totalKm w' = Some (Literal ''--'')"
    if h: "net = Inl err \<or> net = Inr res \<and> \<not> ok res"
      "\<not> has_caches e \<or> open_fails e \<or> app_entries (storage w) u = None"
  proof -
    have "(case cache of None \<Rightarrow> Inr None | Some name \<Rightarrow> summary_cached e parse u name w1) = Inr None
          \<or> (\<exists>x. (case cache of None \<Rightarrow> Inr None | Some name \<Rightarrow> summary_cached e parse u name w1) = Inl x)"
    proof (cases cache)
      case None
      then show ?thesis by simp
    next
      case (Some name)
      then have n: "name = CACHE_NAME" "has_caches e" "\<not> open_fails e" using occ by auto
      then have none: "app_entries s1 u = None" using h(2) occ by simp
      show ?thesis
      proof (cases "match_fails e")
        case True
        then show ?thesis using Some by (simp add: summary_cached_def cache_match_def)
      next
        case False
        then show ?thesis
          using Some n none cache_match_app [OF False, of u s1] w1(2)
          by (simp add: summary_cached_def)
      qed
    qed
    then show ?thesis
      using fail [OF h(1)] setVal_present [OF w1(1), of "Literal ''--''"] by (auto simp: ls)
  qed
  have D: "map_of (rev kvs) ''total_km'' = None \<longrightarrow> summary_text (JObj kvs) = Inr (Fixed2 0)"
    by (simp add: summary_text_def)
  show ?thesis using A B C D loadSummary_returns [of e net parse stringify u w] by blast
qed

theorem summary_is_network_first_witness:
  "totalKm world0 = Some (Literal []) \<and> totalKm world1 = Some (Literal [])
   \<and> (\<exists>w'. loadSummary env1 (Inr res_summary) km_parse km_stringify ''summary.json'' world0 = Inr w'
          \<and> totalKm w' = Some (Fixed2 3)
          \<and> app_entries (storage w') ''summary.json'' = Some [0, 0, 0])
   \<and> (\<exists>w'. loadSummary env1 (Inl NetworkFailure) km_parse km_stringify ''summary.json'' world1 = Inr w'
          \<and> totalKm w' = Some (Fixed2 2))
   \<and> (\<exists>w'. loadSummary env0 (Inl NetworkFailure) km_parse km_stringify ''summary.json'' world0 = Inr w'
          \<and> totalKm w' = Some (Literal ''--''))
   \<and> summary_text (JObj []) = Inr (Fixed2 0)"
proof -
  have t0: "totalKm world0 = Some (Literal [])" by (simp add: world0_def)
  have t1: "totalKm world1 = Some (Literal [])" by (simp add: world1_def world0_def)
  have j3: "response_json km_parse res_summary = Inr (JObj [(''total_km'', JNum 3)])"
    by (simp add: response_json_def km_parse_def res_summary_def)
  have s3: "summary_text (JObj [(''total_km'', JNum 3)]) = Inr (Fixed2 3)"
    by (simp add: summary_text_def)
  have k3: "km_stringify (JObj [(''total_km'', JNum 3)]) = [0, 0, 0]"
    by (simp add: km_stringify_def numeral_3_eq_3)
  have a: "\<exists>w'. loadSummary env1 (Inr res_summary) km_parse km_stringify ''summary.json'' world0 = Inr w'
          \<and> totalKm w' = Some (Fixed2 3)
          \<and> app_entries (storage w') ''summary.json'' = Some [0, 0, 0]"
    using summary_is_network_first [OF t0, where net = "Inr res_summary" and res = res_summary
        and parse = km_parse and data = "JObj [(''total_km'', JNum 3)]" and t = "Fixed2 3"
        and e = env1 and stringify = km_stringify and u = "''summary.json''"] j3 s3 k3
    by (simp add: res_summary_def env1_def)
  have e1: "app_entries (storage world1) ''summary.json'' = Some [0, 0]"
    by (simp add: world1_def app_entries_def)
  have p2: "km_parse [0, 0] = Inr (JObj [(''total_km'', JNum 2)])" by (simp add: km_parse_def)
  have s2: "summary_text (JObj [(''total_km'', JNum 2)]) = Inr (Fixed2 2)"
    by (simp add: summary_text_def)
  have b: "\<exists>w'. loadSummary env1 (Inl NetworkFailure) km_parse km_stringify ''summary.json'' world1 = Inr w'
          \<and> totalKm w' = Some (Fixed2 2)"
    using summary_is_network_first [OF t1, where net = "Inl NetworkFailure" and err = NetworkFailure
        and parse = km_parse and data = "JObj [(''total_km'', JNum 2)]" and t = "Fixed2 2"
        and e = env1 and stringify = km_stringify and u = "''summary.json''" and b = "[0, 0]"]
      e1 p2 s2
    by (simp add: env1_def)
  have c: "\<exists>w'. loadSummary env0 (Inl NetworkFailure) km_parse km_stringify ''summary.json'' world0 = Inr w'
          \<and> totalKm w' = Some (Literal ''--'')"
    using summary_is_network_first [OF t0, where net = "Inl NetworkFailure" and err = NetworkFailure
        and e = env0 and parse = km_parse and stringify = km_stringify and u = "''summary.json''"]
    by (simp add: env0_def)
  have d: "summary_text (JObj []) = Inr (Fixed2 0)"
    using summary_is_network_first [OF t0, where kvs = "[]"] by simp
  show ?thesis using t0 t1 a b c d by blast
qed

section \<open>Properties of the two caches\<close>

lemma app_entries_put:
  assumes "cache_put e name u b s = Inr s'"
  shows "dom (app_entries s) \<subseteq> dom (app_entries s')"
proof -
  have "s' = map (\<lambda>(k, c). if k = name then (k, c(u \<mapsto> b)) else (k, c)) s"
    using assms by (auto simp: cache_put_def split: if_splits)
  then show ?thesis
    by (cases "map_of s CACHE_NAME") (auto simp: app_entries_def map_of_put)
qed

lemma app_entries_put_best_effort:
  "dom (app_entries s) \<subseteq> dom (app_entries (put_best_effort e cache u b s))"
  using app_entries_put [of e _ u b s]
  by (auto simp: put_best_effort_def split: option.splits sum.splits)

lemma app_entries_open_and_match:
  "open_and_match e u s = (cache, r, s1) \<Longrightarrow> app_entries s1 = app_entries s"
  using app_entries_open [of e CACHE_NAME s]
  by (auto simp: open_and_match_def split: if_splits sum.splits)

lemma app_entries_refreshCache:
  "dom (app_entries s) \<subseteq> dom (app_entries (refreshCache e net u cache s))"
  using app_entries_put [of e _ u _ s]
  by (auto simp: refreshCache_def split: option.splits sum.splits)

lemma app_entries_loadBinary:
  "dom (app_entries (storage w)) \<subseteq> dom (app_entries (storage (fst (loadBinary F e net u w))))"
proof -
  obtain cache r s1 where om: "open_and_match e u (storage w) = (cache, r, s1)"
    by (cases "open_and_match e u (storage w)") auto
  have s1: "app_entries s1 = app_entries (storage w)" using om by (rule app_entries_open_and_match)
  have "storage (fst (loadBinary F e net u w)) = s1
        \<or> (\<exists>b. storage (fst (loadBinary F e net u w)) = put_best_effort e cache u b s1)"
    using om
    by (auto simp: loadBinary_def Let_def split: option.splits sum.splits prod.splits)
  then show ?thesis using s1 app_entries_put_best_effort [of s1 e cache u] by (metis order_refl)
qed

lemma app_entries_loadSummary:
  assumes "loadSummary e net parse stringify u w = Inr w'"
  shows "dom (app_entries (storage w)) \<subseteq> dom (app_entries (storage w'))"
proof -
  obtain cache s1 where oc: "open_cache e (storage w) = (cache, s1)"
    by (cases "open_cache e (storage w)") auto
  have s1: "app_entries s1 = app_entries (storage w)" using open_cache_cases [OF oc] by simp
  have sv: "storage (setVal v x) = storage x" for v x
    by (simp add: setVal_def split: option.splits)
  have "storage w' = s1 \<or> (\<exists>b. storage w' = put_best_effort e cache u b s1)"
    using assms oc
    by (auto simp: loadSummary_def Let_def summary_network_def summary_cached_def sv
          split: option.splits sum.splits if_splits)
  then show ?thesis using s1 app_entries_put_best_effort [of s1 e cache u] by (metis order_refl)
qed

lemma app_entries_addAll:
  assumes "cache_addAll net name us s = Inr s'"
  shows "dom (app_entries s) \<subseteq> dom (app_entries s')"
proof -
  obtain rs where "s' = map (\<lambda>(k, c). if k = name then (k, c ++ map_of (rev rs)) else (k, c)) s"
    using assms by (auto simp: cache_addAll_def split: sum.splits)
  then show ?thesis
    by (cases "map_of s CACHE_NAME") (auto simp: app_entries_def map_of_put)
qed

lemma app_entries_sw_install:
  "dom (app_entries s) \<subseteq> dom (app_entries (fst (sw_install e net s)))"
proof (cases "caches_open e SW_CACHE_NAME s")
  case (Inl err)
  then show ?thesis by (simp add: sw_install_def)
next
  case (Inr s1)
  have s1: "app_entries s1 = app_entries s" using Inr by (rule app_entries_open)
  show ?thesis
  proof (cases "cache_addAll net SW_CACHE_NAME ASSETS s1")
    case (Inl err)
    then show ?thesis using Inr s1 by (simp add: sw_install_def)
  next
    case (Inr s2)
    then show ?thesis
      using \<open>caches_open e SW_CACHE_NAME s = Inr s1\<close> s1 app_entries_addAll [OF Inr]
      by (simp add: sw_install_def)
  qed
qed

lemma app_entries_sw_store:
  "dom (app_entries s) \<subseteq> dom (app_entries (sw_store e req b s))"
proof (cases "caches_open e SW_CACHE_NAME s")
  case (Inl err)
  then show ?thesis by (simp add: sw_store_def)
next
  case (Inr s1)
  have s1: "app_entries s1 = app_entries s" using Inr by (rule app_entries_open)
  show ?thesis
  proof (cases "cache_put e SW_CACHE_NAME req b s1")
    case (Inl err)
    then show ?thesis using Inr s1 by (simp add: sw_store_def)
  next
    case (Inr s2)
    then show ?thesis
      using \<open>caches_open e SW_CACHE_NAME s = Inr s1\<close> s1 app_entries_put [OF Inr]
      by (simp add: sw_store_def)
  qed
qed

lemma app_entries_sw_fetch:
  "dom (app_entries s) \<subseteq> dom (app_entries (fst (sw_fetch e so path req net s)))"
  using app_entries_sw_store [of s e req]
  by (auto simp: sw_fetch_def network_first_def split: sum.splits)

lemma foldl_caches_delete:
  "foldl (\<lambda>acc k. caches_delete k acc) s ks = filter (\<lambda>(k, c). k \<notin> set ks) s"
proof (induction ks arbitrary: s)
  case Nil
  then show ?case by simp
next
  case (Cons k ks)
  have "foldl (\<lambda>acc k. caches_delete k acc) s (k # ks)
        = filter (\<lambda>(ka, c). ka \<notin> set ks) (caches_delete k s)"
    by (simp add: Cons.IH)
  also have "\<dots> = filter (\<lambda>(ka, c). ka \<notin> set (k # ks)) s"
    unfolding caches_delete_def filter_filter by (rule filter_cong) auto
  finally show ?case .
qed

lemma sw_activate_eq: "sw_activate s = filter (\<lambda>(k, c). k = SW_CACHE_NAME) s"
  unfolding sw_activate_def foldl_caches_delete
  by (rule filter_cong) (force simp: caches_keys_def)+

lemma names_differ: "CACHE_NAME \<noteq> SW_CACHE_NAME"
  by (simp add: CACHE_NAME_def SW_CACHE_NAME_def)

lemma app_entries_sw_activate: "app_entries (sw_activate s) = Map.empty"
proof -
  have "CACHE_NAME \<notin> fst ` set (filter (\<lambda>(k, c). k = SW_CACHE_NAME) s)"
    using names_differ by auto
  then have "map_of (sw_activate s) CACHE_NAME = None"
    unfolding sw_activate_eq by (simp add: map_of_eq_None_iff)
  then show ?thesis by (simp add: app_entries_def)
qed

text \<open>
  Claim C3, amended. The loaders of the page (\<open>loadBinary\<close>, \<open>refreshCache\<close>, \<open>loadSummary\<close>)
  and the install and fetch handlers of the service worker only add or overwrite entries of
  the application cache: every key present before is present after. The activate handler
  deletes every cache whose name is not \<open>htmap-v2\<close>, and with it the whole application
  cache \<open>htmap-v3-lines\<close>.
\<close>

theorem app_cache_kept_except_on_activation:
  "dom (app_entries (storage w)) \<subseteq> dom (app_entries (storage (fst (loadBinary F e net u w))))
   \<and> dom (app_entries s) \<subseteq> dom (app_entries (refreshCache e net u cache s))
   \<and> (loadSummary e net parse stringify u w = Inr w'
        \<longrightarrow> dom (app_entries (storage w)) \<subseteq> dom (app_entries (storage w')))
   \<and> dom (app_entries s) \<subseteq> dom (app_entries (fst (sw_install e assets s)))
   \<and> dom (app_entries s) \<subseteq> dom (app_entries (fst (sw_fetch e so path req reply s)))
   \<and> caches_keys (sw_activate s) = filter (\<lambda>k. k = SW_CACHE_NAME) (caches_keys s)
   \<and> app_entries (sw_activate s) = Map.empty"
proof -
  have "caches_keys (sw_activate s) = filter (\<lambda>k. k = SW_CACHE_NAME) (caches_keys s)"
    unfolding sw_activate_eq caches_keys_def by (induction s) auto
  then show ?thesis
    using app_entries_loadBinary [of w F e net u] app_entries_refreshCache [of s e net u cache]
      app_entries_loadSummary [of e net parse stringify u w w']
      app_entries_sw_install [of s e assets] app_entries_sw_fetch [of s e so path req reply]
      app_entries_sw_activate [of s]
    by blast
qed

lemma world2_storage: "storage world2 = [(CACHE_NAME, [''points.bin'' \<mapsto> record_le 0 0])]"
  by (simp add: world2_def loadBinary_def open_and_match_def env1_def world0_def res_one_chunk_def
        Let_def target_set_def caches_open_def caches_keys_def cache_match_def cache_put_def
        put_best_effort_def percent_exact)

text \<open>
  Claim C3 as stated fails: after a network load has stored \<open>points.bin\<close> in the application
  cache, activation of the service worker leaves no cache at all, and the entry is gone.
\<close>

theorem activation_deletes_app_cache_counterexample:
  "app_entries (storage world2) ''points.bin'' = Some (record_le 0 0)
   \<and> cache_match env1 CACHE_NAME ''points.bin'' (storage world2) = Inr (Some (record_le 0 0))
   \<and> sw_activate (storage world2) = []
   \<and> app_entries (sw_activate (storage world2)) ''points.bin'' = None
   \<and> cache_match env1 CACHE_NAME ''points.bin'' (sw_activate (storage world2)) = Inr None"
proof -
  have a: "sw_activate (storage world2) = []"
    unfolding sw_activate_eq world2_storage using names_differ by simp
  show ?thesis
    unfolding a by (simp add: world2_storage app_entries_def cache_match_def env1_def)
qed

theorem app_cache_kept_except_on_activation_witness:
  "loadSummary env1 (Inl NetworkFailure) km_parse km_stringify ''summary.json'' world1
     = Inr (world1\<lparr>totalKm := Some (Fixed2 2)\<rparr>)
   \<and> dom (app_entries (storage world1)) = {''summary.json''}
   \<and> dom (app_entries (storage (world1\<lparr>totalKm := Some (Fixed2 2)\<rparr>))) = {''summary.json''}
   \<and> dom (app_entries (storage world2)) = {''points.bin''}
   \<and> app_entries (sw_activate (storage world2)) = Map.empty"
proof -
  have ls: "loadSummary env1 (Inl NetworkFailure) km_parse km_stringify ''summary.json'' world1
     = Inr (world1\<lparr>totalKm := Some (Fixed2 2)\<rparr>)"
    by (simp add: loadSummary_def open_cache_def env1_def world1_def world0_def caches_open_def
          caches_keys_def summary_network_def summary_cached_def cache_match_def km_parse_def
          summary_text_def setVal_def)
  have d1: "dom (app_entries (storage world1)) = {''summary.json''}"
    by (simp add: world1_def app_entries_def)
  have d2: "dom (app_entries (storage world2)) = {''points.bin''}"
    by (simp add: world2_storage app_entries_def)
  show ?thesis
    using app_cache_kept_except_on_activation
      [where w = world1 and w' = "world1\<lparr>totalKm := Some (Fixed2 2)\<rparr>" and e = env1
         and net = "Inl NetworkFailure" and parse = km_parse and stringify = km_stringify
         and u = "''summary.json''" and s = "storage world2"]
      ls d1 d2
    by simp
qed

end
